theory Spec2Isabelle
  imports Main "HOL-Library.Sublist"
begin


section \<open>Values shared by the whole development\<close>

text \<open>
  Instants are milliseconds since the epoch. The source holds them as ISO-8601 strings made by
  \<^verbatim>\<open>toISOString\<close> and as \<^verbatim>\<open>Date\<close> objects; both are ordered as their instants are. The
  timestamp texts of the upstream, which the source also compares as they come, keep their text
  (the \<open>stamp\<close> of an upstream record, below).
\<close>

type_synonym timestamp = int

text \<open>
  The \<^verbatim>\<open>$filter\<close> predicates the engine builds over a resource's timestamp field:
  \<^verbatim>\<open><field> gt <t>\<close> and \<^verbatim>\<open><field> ge <a> and <field> lt <b>\<close>.
\<close>

datatype odata_filter = Gt timestamp | Range timestamp timestamp

text \<open>
  A JavaScript exception. \<open>Failure m\<close> is an \<^verbatim>\<open>Error\<close> (or a Supabase error object) whose
  \<^verbatim>\<open>message\<close> is \<open>m\<close>; \<open>ThrownUndefined\<close> is \<^verbatim>\<open>throw lastError\<close> with \<^verbatim>\<open>lastError\<close> never assigned;
  \<open>TypeError\<close> is raised by \<^verbatim>\<open>Object.keys(null)\<close> and by reading \<^verbatim>\<open>.message\<close> of \<^verbatim>\<open>undefined\<close>;
  \<open>ApiLimitHitUnexpectedly f\<close> is
  \<^verbatim>\<open>new Error(`API limit hit unexpectedly in date chunk: ${filter}`)\<close>;
  \<open>DatabaseNotInitialized\<close> is
  \<^verbatim>\<open>new Error('Database not initialized. Call initializeDatabase() first.')\<close>.
\<close>

datatype error =
    Failure string
  | ThrownUndefined
  | TypeError
  | ApiLimitHitUnexpectedly "odata_filter option"
  | DatabaseNotInitialized

section \<open>The page fetcher: \<^verbatim>\<open>lib/utils/fetchFeed.js\<close>\<close>

subsection \<open>Parsed JSON and JavaScript truthiness\<close>

datatype json =
    JNull
  | JBool bool
  | JNum int
  | JStr string
  | JArr "json list"
  | JObj "(string \<times> json) list"

text \<open>
  \<^verbatim>\<open>data?.[key]\<close>: \<open>None\<close> stands for \<^verbatim>\<open>undefined\<close>. Only objects own the keys read here, and
  a parsed object holds each of its keys once.
\<close>

fun field_of :: "json \<Rightarrow> string \<Rightarrow> json option" where
  "field_of (JObj kvs) k = map_of kvs k"
| "field_of _ k = None"

fun truthy :: "json \<Rightarrow> bool" where
  "truthy JNull = False"
| "truthy (JBool b) = b"
| "truthy (JNum n) = (n \<noteq> 0)"
| "truthy (JStr s) = (s \<noteq> [])"
| "truthy (JArr xs) = True"
| "truthy (JObj kvs) = True"

text \<open>\<^verbatim>\<open>x || d\<close> where \<open>x\<close> may be \<^verbatim>\<open>undefined\<close>.\<close>

fun or_else :: "json option \<Rightarrow> json \<Rightarrow> json" where
  "or_else None d = d"
| "or_else (Some v) d = (if truthy v then v else d)"

fun is_array :: "json \<Rightarrow> bool" where
  "is_array (JArr xs) = True"
| "is_array _ = False"

subsection \<open>\<^verbatim>\<open>ApiClient.fetchWithRetry\<close>\<close>

text \<open>
  What one call of \<^verbatim>\<open>fetch\<close> followed by \<^verbatim>\<open>response.json()\<close> can do: the request is rejected
  (a network error with its message), the response is not \<^verbatim>\<open>ok\<close> (status, status text, body
  text), the body does not parse, or the body parses.
\<close>

datatype attempt =
    Rejected string
  | Status nat string string
  | Unparsable string
  | Parsed json

record api_client =
  retryAttempts :: nat
  retryDelay :: nat

text \<open>\<^verbatim>\<open>new ApiClient(token)\<close>: the constructor's defaults.\<close>

definition new_ApiClient :: api_client where
  "new_ApiClient = \<lparr>retryAttempts = 3, retryDelay = 500\<rparr>"

fun digit :: "nat \<Rightarrow> char" where
  "digit n = (''0123456789'' ! (n mod 10))"

function decimal :: "nat \<Rightarrow> string" where
  "decimal n = (if n < 10 then [digit n] else decimal (n div 10) @ [digit n])"
  by pat_completeness auto
termination
  by (relation "measure id") auto

declare decimal.simps [simp del]

text \<open>The message of the error thrown inside the \<^verbatim>\<open>try\<close> block for a failed attempt.\<close>

fun attempt_error :: "string \<Rightarrow> attempt \<Rightarrow> error option" where
  "attempt_error url (Rejected m) = Some (Failure m)"
| "attempt_error url (Status code statusText body) =
     Some (Failure (''HTTP '' @ decimal code @ '' '' @ statusText @ '' for '' @ url
                    @ (if body = [] then [] else '' - '' @ body)))"
| "attempt_error url (Unparsable m) = Some (Failure m)"
| "attempt_error url (Parsed j) = None"

text \<open>
  The observable run of \<^verbatim>\<open>fetchWithRetry\<close>: what it returns or throws, how many requests it
  sent, and the delays it slept, in order.
\<close>

record retry_run =
  outcome :: "error + json"
  requests :: nat
  sleeps :: "nat list"

text \<open>
  The \<^verbatim>\<open>for (attempt = 1; attempt <= retryAttempts; attempt++)\<close> loop. \<open>transport k\<close> is what the
  \<open>k\<close>-th request does. The \<^verbatim>\<open>catch\<close> block catches every error thrown in the \<^verbatim>\<open>try\<close> block,
  whatever its kind, and sleeps unless this was the last attempt.
\<close>

function retry_loop ::
  "api_client \<Rightarrow> string \<Rightarrow> (nat \<Rightarrow> attempt) \<Rightarrow> nat \<Rightarrow> error option \<Rightarrow> nat list \<Rightarrow> retry_run" where
  "retry_loop c url transport attempt lastError slept =
     (if attempt \<le> retryAttempts c then
        (case transport attempt of
           Parsed j \<Rightarrow> \<lparr>outcome = Inr j, requests = attempt, sleeps = slept\<rparr>
         | failed \<Rightarrow>
             retry_loop c url transport (attempt + 1) (attempt_error url failed)
               (if attempt < retryAttempts c
                then slept @ [retryDelay c * 2 ^ (attempt - 1)] else slept))
      else \<lparr>outcome = Inl (case lastError of None \<Rightarrow> ThrownUndefined | Some e \<Rightarrow> e),
             requests = attempt - 1, sleeps = slept\<rparr>)"
  by pat_completeness auto
termination
  by (relation "measure (\<lambda>(c, url, transport, attempt, lastError, slept). retryAttempts c + 1 - attempt)")
     auto

declare retry_loop.simps [simp del]

definition fetchWithRetry :: "api_client \<Rightarrow> string \<Rightarrow> (nat \<Rightarrow> attempt) \<Rightarrow> retry_run" where
  "fetchWithRetry c url transport = retry_loop c url transport 1 None []"

subsection \<open>\<^verbatim>\<open>fetchODataPage\<close>\<close>

record page_request =
  rq_baseUrl :: string
  rq_top :: nat
  rq_next :: "string option"
  rq_skip :: "nat option"
  rq_filter :: "string option"
  rq_orderby :: "string option"

text \<open>\<^verbatim>\<open>params.join('&')\<close>.\<close>

fun join_amp :: "string list \<Rightarrow> string" where
  "join_amp [] = []"
| "join_amp [p] = p"
| "join_amp (p # ps) = p @ ''&'' @ join_amp ps"

text \<open>
  The URL built by hand; \<open>enable_orderby\<close> is \<^verbatim>\<open>process.env.ENABLE_ORDERBY !== 'false'\<close>. An empty
  string, \<^verbatim>\<open>null\<close> and the number \<open>0\<close> are falsy, so such a parameter is left out.
\<close>

definition query_url :: "bool \<Rightarrow> page_request \<Rightarrow> string" where
  "query_url enable_orderby rq =
     (let params =
            (case rq_filter rq of Some f \<Rightarrow> (if f \<noteq> [] then [''$filter='' @ f] else []) | None \<Rightarrow> [])
          @ (case rq_orderby rq of
               Some ob \<Rightarrow> (if ob \<noteq> [] \<and> enable_orderby then [''$orderby='' @ ob] else [])
             | None \<Rightarrow> [])
          @ (if rq_top rq \<noteq> 0 then [''$top='' @ decimal (rq_top rq)] else [])
          @ (case rq_skip rq of Some s \<Rightarrow> (if s \<noteq> 0 then [''$skip='' @ decimal s] else []) | None \<Rightarrow> []);
          queryString = join_amp params
      in if queryString \<noteq> [] then rq_baseUrl rq @ ''?'' @ queryString else rq_baseUrl rq)"

definition finalUrl :: "bool \<Rightarrow> page_request \<Rightarrow> string" where
  "finalUrl enable_orderby rq =
     (case rq_next rq of
        Some n \<Rightarrow> (if n \<noteq> [] then n else query_url enable_orderby rq)
      | None \<Rightarrow> query_url enable_orderby rq)"

record odata_page =
  page_value :: json
  page_next :: json
  page_count :: json

text \<open>
  The object returned after \<^verbatim>\<open>fetchWithRetry\<close> has produced \<open>data\<close>. With \<^verbatim>\<open>DEBUG === 'true'\<close> the
  function first evaluates \<^verbatim>\<open>Object.keys(data)\<close>, which throws on \<^verbatim>\<open>null\<close>.
\<close>

definition page_of :: "bool \<Rightarrow> json \<Rightarrow> error + odata_page" where
  "page_of debug data =
     (if debug \<and> data = JNull then Inl TypeError
      else Inr \<lparr>page_value = or_else (field_of data ''value'') (JArr []),
                page_next = or_else (field_of data ''@odata.nextLink'') JNull,
                page_count = or_else (field_of data ''@odata.count'') JNull\<rparr>)"

definition fetchODataPage ::
  "bool \<Rightarrow> bool \<Rightarrow> (string \<Rightarrow> nat \<Rightarrow> attempt) \<Rightarrow> page_request \<Rightarrow> error + odata_page" where
  "fetchODataPage debug enable_orderby network rq =
     (let client = new_ApiClient; url = finalUrl enable_orderby rq
      in case outcome (fetchWithRetry client url (network url)) of
           Inl e \<Rightarrow> Inl e
         | Inr data \<Rightarrow> page_of debug data)"

section \<open>The checkpoint store: \<^verbatim>\<open>lib/utils/db.js\<close>\<close>

text \<open>
  One row of \<^verbatim>\<open>sync_log\<close>, keyed by \<^verbatim>\<open>resourcetype\<close>. \<open>sync_fault\<close> is the error the Supabase
  client answers a \<^verbatim>\<open>sync_log\<close> request with, if any (a missing row is not an error: the
  source passes over \<^verbatim>\<open>PGRST116\<close>).
\<close>

record sync_row =
  lastprocessedtimestamp :: timestamp
  updatedat :: timestamp

record database =
  sync_log :: "string \<rightharpoonup> sync_row"
  sync_fault :: "string option"

text \<open>
  The timestamp argument of \<^verbatim>\<open>updateSyncLog\<close> as JavaScript sees it: \<^verbatim>\<open>null\<close> or
  \<^verbatim>\<open>undefined\<close>, the empty string, or a timestamp text.
\<close>

datatype ts_arg = Nullish | EmptyText | Stamp timestamp

fun falsy :: "ts_arg \<Rightarrow> bool" where
  "falsy Nullish = True"
| "falsy EmptyText = True"
| "falsy (Stamp t) = False"

text \<open>
  The module variable \<^verbatim>\<open>supabase\<close> is \<open>None\<close> until \<^verbatim>\<open>initializeDatabase\<close> has run. Each
  operation returns what it returns or throws, and the variable afterwards.
\<close>

definition getSyncLog :: "string \<Rightarrow> database option \<Rightarrow> error + timestamp option" where
  "getSyncLog resourceType supabase =
     (case supabase of
        None \<Rightarrow> Inl DatabaseNotInitialized
      | Some db \<Rightarrow>
          (case sync_fault db of
             Some m \<Rightarrow> Inl (Failure m)
           | None \<Rightarrow> Inr (map_option lastprocessedtimestamp (sync_log db resourceType))))"

definition updateSyncLog ::
  "timestamp \<Rightarrow> string \<Rightarrow> ts_arg \<Rightarrow> database option \<Rightarrow> (error + unit) \<times> database option" where
  "updateSyncLog now resourceType ts supabase =
     (case supabase of
        None \<Rightarrow> (Inl DatabaseNotInitialized, supabase)
      | Some db \<Rightarrow>
          (case ts of
             Nullish \<Rightarrow> (Inr (), supabase)
           | EmptyText \<Rightarrow> (Inr (), supabase)
           | Stamp t \<Rightarrow>
               (case sync_fault db of
                  Some m \<Rightarrow> (Inl (Failure m), supabase)
                | None \<Rightarrow>
                    (Inr (),
                     Some (db\<lparr>sync_log := (sync_log db)(resourceType \<mapsto>
                             \<lparr>lastprocessedtimestamp = t, updatedat = now\<rparr>)\<rparr>)))))"

section \<open>The slice executors: \<^verbatim>\<open>lib/sync/mediaSync.js\<close> and \<^verbatim>\<open>lib/sync/propertySync.js\<close>\<close>

subsection \<open>Records and rows\<close>

text \<open>
  A timestamp member of an upstream record is a text: \<open>written\<close> is the text as the upstream
  sent it and \<open>instant\<close> is what \<^verbatim>\<open>new Date(text)\<close> reads from it. The text is a well-formed
  timestamp or empty; an empty text is falsy and is never parsed.
\<close>

record stamp =
  written :: string
  instant :: timestamp

text \<open>
  An upstream record is a JSON object; these are the members the engine reads. \<open>None\<close> is a
  member that is missing or \<^verbatim>\<open>null\<close>; a key may also be the empty string.
\<close>

record raw =
  ListingKey :: "string option"
  ResourceRecordKey :: "string option"
  MediaKey :: "string option"
  MediaModificationTimestamp :: "stamp option"
  ModificationTimestamp :: "stamp option"
  ModifiedOn :: "stamp option"

text \<open>A timestamp member is truthy when it is present and not the empty string.\<close>

fun given :: "stamp option \<Rightarrow> bool" where
  "given None = False"
| "given (Some s) = (written s \<noteq> [])"

text \<open>\<^verbatim>\<open>safeDate\<close> of the mappers: \<^verbatim>\<open>value ? new Date(value).toISOString() : null\<close>.\<close>

fun safeDate :: "stamp option \<Rightarrow> timestamp option" where
  "safeDate None = None"
| "safeDate (Some s) = (if written s = [] then None else Some (instant s))"

text \<open>
  A mapped row, with the columns the engine reads back. \<^verbatim>\<open>mapMedia\<close> and \<^verbatim>\<open>mapProperty\<close> copy the
  keys, pass the timestamps through \<^verbatim>\<open>safeDate\<close> and stamp \<^verbatim>\<open>UpdatedAt\<close> with \<^verbatim>\<open>new Date()\<close>;
  neither sets \<^verbatim>\<open>ModifiedOn\<close> or \<^verbatim>\<open>LastModified\<close>.
\<close>

record row =
  col_ListingKey :: "string option"
  col_ResourceRecordKey :: "string option"
  col_MediaKey :: "string option"
  col_MediaModificationTimestamp :: "timestamp option"
  col_ModificationTimestamp :: "timestamp option"
  col_UpdatedAt :: "timestamp option"

definition mapMedia :: "timestamp \<Rightarrow> raw \<Rightarrow> row" where
  "mapMedia now r =
     \<lparr>col_ListingKey = None,
      col_ResourceRecordKey = ResourceRecordKey r,
      col_MediaKey = MediaKey r,
      col_MediaModificationTimestamp = safeDate (MediaModificationTimestamp r),
      col_ModificationTimestamp = safeDate (ModificationTimestamp r),
      col_UpdatedAt = Some now\<rparr>"

definition mapProperty :: "timestamp \<Rightarrow> raw \<Rightarrow> row" where
  "mapProperty now r =
     \<lparr>col_ListingKey = ListingKey r,
      col_ResourceRecordKey = None,
      col_MediaKey = None,
      col_MediaModificationTimestamp = None,
      col_ModificationTimestamp = safeDate (ModificationTimestamp r),
      col_UpdatedAt = Some now\<rparr>"

subsection \<open>The collaborators of a slice\<close>

text \<open>
  What \<^verbatim>\<open>await fetchODataPage({..., top: batchSize, skip, filter})\<close> gives the executor: the
  \<^verbatim>\<open>value\<close> array of records, or an exception.
\<close>

datatype fetched = Page "raw list" | FetchThrows error

text \<open>
  What the Supabase \<^verbatim>\<open>upsert(...).select()\<close> answers inside \<^verbatim>\<open>upsertBatch\<close>: an error, which
  is thrown, or \<^verbatim>\<open>data\<close>, of which only the length is used (\<open>None\<close> when \<^verbatim>\<open>data\<close> is \<^verbatim>\<open>null\<close>).
\<close>

datatype store_reply = StoreThrows error | Returned "nat option"

text \<open>
  The surroundings of one resource run. Every call to the upstream and to the store is numbered
  (the \<open>tick\<close> of the world below), and a collaborator may answer differently at each tick.
  \<open>batchSize\<close> is \<^verbatim>\<open>parseInt(process.env.BATCH_SIZE || 5000)\<close>; \<open>clock t i\<close> is the
  \<^verbatim>\<open>new Date()\<close> read while row \<open>i\<close> of the batch mapped at tick \<open>t\<close> is built, and \<open>clock t 0\<close> any
  other \<^verbatim>\<open>new Date()\<close> read at tick \<open>t\<close>; \<open>mediaSyncStartDate\<close> is
  \<^verbatim>\<open>new Date(process.env.MEDIA_SYNC_START_DATE || '2024-01-01T00:00:00Z')\<close>.
\<close>

record env =
  server :: "nat \<Rightarrow> odata_filter option \<Rightarrow> nat \<Rightarrow> fetched"
  store :: "nat \<Rightarrow> row list \<Rightarrow> store_reply"
  batchSize :: nat
  clock :: "nat \<Rightarrow> nat \<Rightarrow> timestamp"
  mediaSyncStartDate :: timestamp

text \<open>What a slice returns to the scheduler.\<close>

record slice_result =
  totalFetched :: nat
  totalUpserted :: nat
  totalUnique :: nat
  latestTimestamp :: "timestamp option"
  oldestTimestamp :: "stamp option"
  hitLimit :: bool

text \<open>
  The mutable state a run threads through its slices: the number of external calls made, the
  \<^verbatim>\<open>Set\<close> of seen keys (a JavaScript \<^verbatim>\<open>Set\<close> keeps insertion order, and the source adds a key
  only after \<^verbatim>\<open>has\<close> said no, so it is the list of keys in the order added and its \<^verbatim>\<open>size\<close> is
  the length), and \<open>handle\<close>, the module variable \<^verbatim>\<open>supabase\<close> of \<^verbatim>\<open>db.js\<close> with the \<^verbatim>\<open>sync_log\<close>
  table behind it. \<open>writes\<close> lists the batches handed to \<^verbatim>\<open>upsertBatch\<close> and \<open>finished\<close> the slices
  that returned, with their filters: both only record what happened.
\<close>

record world =
  tick :: nat
  seen :: "string list"
  handle :: "database option"
  writes :: "row list list"
  finished :: "(odata_filter option \<times> slice_result) list"

definition apiLimit :: nat where
  "apiLimit = 100000"

text \<open>\<^verbatim>\<open>error.message && error.message.includes('total exceeds 100000')\<close>, for an error object.\<close>

fun cap_exceeded :: "error \<Rightarrow> bool" where
  "cap_exceeded (Failure m) = sublist ''total exceeds 100000'' m"
| "cap_exceeded _ = False"

text \<open>
  \<^verbatim>\<open>upsertBatch\<close>, given the module variable \<^verbatim>\<open>supabase\<close> and the store's answer at this call:
  nothing to do for no records, then \<^verbatim>\<open>if (!supabase) throw\<close>, then the upsert.
\<close>

definition upsertBatch ::
  "database option \<Rightarrow> (row list \<Rightarrow> store_reply) \<Rightarrow> row list \<Rightarrow> error + nat" where
  "upsertBatch supabase reply records =
     (if records = [] then Inr 0
      else if supabase = None then Inl DatabaseNotInitialized
      else case reply records of
             StoreThrows e \<Rightarrow> Inl e
           | Returned d \<Rightarrow>
               Inr (case d of None \<Rightarrow> length records
                    | Some n \<Rightarrow> if n \<noteq> 0 then n else length records))"

text \<open>\<^verbatim>\<open>if (!latest || (x && x > latest)) latest = x\<close>, the update every caller of a slice uses.\<close>

fun newer :: "timestamp option \<Rightarrow> timestamp option \<Rightarrow> timestamp option" where
  "newer None x = x"
| "newer (Some l) None = Some l"
| "newer (Some l) (Some t) = (if t > l then Some t else Some l)"

text \<open>The locals of the paging loop.\<close>

record locals =
  l_fetched :: nat
  l_upserted :: nat
  l_skip :: nat
  l_latest :: "timestamp option"
  l_oldest :: "stamp option"

definition locals0 :: locals where
  "locals0 = \<lparr>l_fetched = 0, l_upserted = 0, l_skip = 0, l_latest = None, l_oldest = None\<rparr>"

text \<open>One turn of the \<^verbatim>\<open>while (hasMoreData)\<close> loop either leaves the loop or goes round again.\<close>

datatype ('a, 'b) turn = Leave 'a | Again 'b

text \<open>The \<^verbatim>\<open>return { ... }\<close> of a slice: \<^verbatim>\<open>totalUnique\<close> is the size of the shared set.\<close>

definition slice_return ::
  "odata_filter option \<Rightarrow> locals \<Rightarrow> bool \<Rightarrow> world \<Rightarrow> (error + slice_result) \<times> world" where
  "slice_return flt st hit w =
     (let r = \<lparr>totalFetched = l_fetched st, totalUpserted = l_upserted st,
                totalUnique = length (seen w), latestTimestamp = l_latest st,
                oldestTimestamp = l_oldest st, hitLimit = hit\<rparr>
      in (Inr r, w\<lparr>finished := finished w @ [(flt, r)]\<rparr>))"

text \<open>
  \<^verbatim>\<open><\<close> on two strings: the first code unit that differs decides, and a proper prefix comes
  first.
\<close>

fun text_less :: "string \<Rightarrow> string \<Rightarrow> bool" where
  "text_less [] [] = False"
| "text_less [] (y # ys) = True"
| "text_less (x # xs) [] = False"
| "text_less (x # xs) (y # ys) = ((of_char x :: nat) < of_char y \<or> (x = y \<and> text_less xs ys))"

text \<open>
  \<^verbatim>\<open>if (timestamp) { if (!oldestTimestamp || timestamp < oldestTimestamp) oldestTimestamp = timestamp }\<close>:
  the two timestamps are the texts of the upstream, compared as texts.
\<close>

fun older :: "stamp option \<Rightarrow> stamp option \<Rightarrow> stamp option" where
  "older oldest None = oldest"
| "older None (Some t) = (if written t = [] then None else Some t)"
| "older (Some l) (Some t) =
     (if written t = [] then Some l
      else if written l = [] \<or> text_less (written t) (written l) then Some t
      else Some l)"

text \<open>A key field is truthy when it is present and not the empty string.\<close>

fun present :: "string option \<Rightarrow> bool" where
  "present None = False"
| "present (Some s) = (s \<noteq> [])"

text \<open>A template literal prints a missing field as \<^verbatim>\<open>undefined\<close>.\<close>

fun printed :: "string option \<Rightarrow> string" where
  "printed None = ''undefined''"
| "printed (Some s) = s"

subsection \<open>The two executors\<close>

text \<open>
  \<^verbatim>\<open>fetchAndUpsertBatchesInternal\<close> (listings) and \<^verbatim>\<open>fetchAndUpsertMediaBatchesInternal\<close> (media)
  are the same text but for five places, which are the functions of this subsection indexed by
  the resource: the timestamp read while tracking the oldest record, the test and the key of the
  duplicate filter, the mapper, the field list of \<^verbatim>\<open>findLatestTimestamp\<close>, and what the
  \<^verbatim>\<open>catch\<close> block does with \<^verbatim>\<open>failOnLimit\<close>.
\<close>

datatype resource = Listings | Media

text \<open>\<^verbatim>\<open>a || b\<close> on two timestamp members.\<close>

definition or_stamp :: "stamp option \<Rightarrow> stamp option \<Rightarrow> stamp option" where
  "or_stamp a b = (if given a then a else b)"

fun tracked_stamp :: "resource \<Rightarrow> raw \<Rightarrow> stamp option" where
  "tracked_stamp Listings r = or_stamp (ModificationTimestamp r) (ModifiedOn r)"
| "tracked_stamp Media r = or_stamp (MediaModificationTimestamp r) (ModificationTimestamp r)"

fun has_key :: "resource \<Rightarrow> raw \<Rightarrow> bool" where
  "has_key Listings r = present (ListingKey r)"
| "has_key Media r = (present (ResourceRecordKey r) \<and> present (MediaKey r))"

text \<open>The member of the \<^verbatim>\<open>Set\<close>: the listing key, or \<^verbatim>\<open>`${ResourceRecordKey}_${MediaKey}`\<close>.\<close>

fun set_key :: "resource \<Rightarrow> raw \<Rightarrow> string" where
  "set_key Listings r = printed (ListingKey r)"
| "set_key Media r = printed (ResourceRecordKey r) @ ''_'' @ printed (MediaKey r)"

fun mapper :: "resource \<Rightarrow> timestamp \<Rightarrow> raw \<Rightarrow> row" where
  "mapper Listings = mapProperty"
| "mapper Media = mapMedia"

text \<open>
  The \<^verbatim>\<open>timestampFields\<close> of \<^verbatim>\<open>findLatestTimestamp\<close> read on a mapped row, in the order of the
  list; a field the mappers never set reads as \<^verbatim>\<open>undefined\<close>.
\<close>

fun timestampFields :: "resource \<Rightarrow> row \<Rightarrow> timestamp option list" where
  "timestampFields Listings m = [col_ModificationTimestamp m, None, col_UpdatedAt m, None]"
| "timestampFields Media m =
     [col_MediaModificationTimestamp m, col_ModificationTimestamp m, None, col_UpdatedAt m]"

text \<open>The inner \<^verbatim>\<open>for (const field of timestampFields)\<close> with its \<^verbatim>\<open>break\<close>: the first truthy field.\<close>

fun first_truthy :: "timestamp option list \<Rightarrow> timestamp option" where
  "first_truthy [] = None"
| "first_truthy (Some t # fs) = Some t"
| "first_truthy (None # fs) = first_truthy fs"

definition findLatestTimestamp :: "resource \<Rightarrow> row list \<Rightarrow> timestamp option" where
  "findLatestTimestamp k records =
     (if records = [] then None
      else foldl (\<lambda>latest m. newer latest (first_truthy (timestampFields k m))) None records)"

text \<open>
  The duplicate filter over one page: the set, \<^verbatim>\<open>uniqueRecords\<close> and \<^verbatim>\<open>duplicatesInBatch\<close> after
  the \<^verbatim>\<open>for\<close> loop.
\<close>

fun dedup :: "resource \<Rightarrow> raw list \<Rightarrow> string list \<Rightarrow> raw list \<Rightarrow> nat \<Rightarrow> string list \<times> raw list \<times> nat" where
  "dedup k [] seenKeys uniqueRecords duplicatesInBatch = (seenKeys, uniqueRecords, duplicatesInBatch)"
| "dedup k (r # rs) seenKeys uniqueRecords duplicatesInBatch =
     (if has_key k r \<and> set_key k r \<notin> set seenKeys
      then dedup k rs (seenKeys @ [set_key k r]) (uniqueRecords @ [r]) duplicatesInBatch
      else dedup k rs seenKeys uniqueRecords (duplicatesInBatch + 1))"

text \<open>
  The \<^verbatim>\<open>catch\<close> block of the loop. Reading \<^verbatim>\<open>error.message\<close> of \<^verbatim>\<open>undefined\<close> throws. On the cap
  marker the listings executor throws when \<^verbatim>\<open>failOnLimit\<close> is set; the media executor only logs
  \<^verbatim>\<open>Date chunk unexpectedly hit limit\<close> and leaves the loop with \<^verbatim>\<open>hitLimit = true\<close>.
\<close>

definition on_catch ::
  "resource \<Rightarrow> odata_filter option \<Rightarrow> bool \<Rightarrow> error \<Rightarrow> locals \<Rightarrow> world \<Rightarrow> (error + slice_result) \<times> world" where
  "on_catch k flt failOnLimit e st w =
     (if e = ThrownUndefined then (Inl TypeError, w)
      else if cap_exceeded e then
        (case k of
           Listings \<Rightarrow> if failOnLimit then (Inl (ApiLimitHitUnexpectedly flt), w)
                       else slice_return flt st True w
         | Media \<Rightarrow> slice_return flt st True w)
      else (Inl e, w))"

text \<open>The end of a page that was not empty: stop on a short page, else advance \<^verbatim>\<open>skip\<close>.\<close>

definition page_end ::
  "env \<Rightarrow> odata_filter option \<Rightarrow> locals \<Rightarrow> nat \<Rightarrow> world
   \<Rightarrow> ((error + slice_result) \<times> world, locals \<times> world) turn" where
  "page_end e flt st n w =
     (if n < batchSize e then Leave (slice_return flt st False w)
      else (let st' = st\<lparr>l_skip := l_skip st + n\<rparr>
            in if l_skip st' \<ge> apiLimit then Leave (slice_return flt st' True w)
               else Again (st', w)))"

text \<open>One turn of \<^verbatim>\<open>while (hasMoreData)\<close>.\<close>

definition slice_turn ::
  "resource \<Rightarrow> env \<Rightarrow> odata_filter option \<Rightarrow> bool \<Rightarrow> locals \<Rightarrow> world
   \<Rightarrow> ((error + slice_result) \<times> world, locals \<times> world) turn" where
  "slice_turn k e flt failOnLimit st w =
     (if l_skip st + batchSize e > apiLimit \<and> apiLimit \<le> l_skip st
      then Leave (slice_return flt st True w)
      else
        (case server e (tick w) flt (l_skip st) of
           FetchThrows err \<Rightarrow> Leave (on_catch k flt failOnLimit err st (w\<lparr>tick := tick w + 1\<rparr>))
         | Page val \<Rightarrow>
             (let w1 = w\<lparr>tick := tick w + 1\<rparr> in
              if val = [] then Leave (slice_return flt st False w1)
              else
                (let st1 = st\<lparr>l_oldest := foldl (\<lambda>oldest r. older oldest (tracked_stamp k r))
                                               (l_oldest st) val\<rparr>;
                     d = dedup k val (seen w1) [] 0;
                     uniqueRecords = fst (snd d);
                     w2 = w1\<lparr>seen := fst d\<rparr>
                 in if uniqueRecords \<noteq> [] then
                      (let mapped = map (\<lambda>(i, r). mapper k (clock e (tick w2) i) r)
                                        (enumerate 0 uniqueRecords);
                           w3 = w2\<lparr>tick := tick w2 + 1, writes := writes w2 @ [mapped]\<rparr>
                       in case upsertBatch (handle w2) (store e (tick w2)) mapped of
                            Inl err \<Rightarrow> Leave (on_catch k flt failOnLimit err st1 w3)
                          | Inr upsertedCount \<Rightarrow>
                              page_end e flt
                                (st1\<lparr>l_fetched := l_fetched st1 + length val,
                                      l_upserted := l_upserted st1 + upsertedCount,
                                      l_latest := newer (l_latest st1) (findLatestTimestamp k mapped)\<rparr>)
                                (length val) w3)
                    else page_end e flt st1 (length val) w2))))"

function slice_loop ::
  "resource \<Rightarrow> env \<Rightarrow> odata_filter option \<Rightarrow> bool \<Rightarrow> locals \<Rightarrow> world
   \<Rightarrow> (error + slice_result) \<times> world" where
  "slice_loop k e flt failOnLimit st w =
     (case slice_turn k e flt failOnLimit st w of
        Leave r \<Rightarrow> r
      | Again nxt \<Rightarrow> slice_loop k e flt failOnLimit (fst nxt) (snd nxt))"
  by pat_completeness auto
termination
proof (relation "measure (\<lambda>(k, e, flt, failOnLimit, st, w). apiLimit - l_skip st)")
  show "wf (measure (\<lambda>(k, e, flt, failOnLimit, st, w). apiLimit - l_skip st))"
    by simp
next
  fix k :: resource and e :: env and flt :: "odata_filter option" and failOnLimit :: bool
    and st :: locals and w :: world and nxt :: "locals \<times> world"
  assume again: "slice_turn k e flt failOnLimit st w = Again nxt"
  have page: "l_skip st < l_skip (fst nx) \<and> l_skip (fst nx) < apiLimit"
    if "page_end e flt s n w' = Again nx" and "l_skip s = l_skip st" and "0 < n"
    for s n w' nx
    using that by (auto simp: page_end_def Let_def split: if_splits)
  from again have "l_skip st < l_skip (fst nxt) \<and> l_skip (fst nxt) < apiLimit"
    by (auto simp: slice_turn_def Let_def split: if_splits fetched.splits sum.splits
             dest!: page)
  then show "((k, e, flt, failOnLimit, fst nxt, snd nxt), (k, e, flt, failOnLimit, st, w))
             \<in> measure (\<lambda>(k, e, flt, failOnLimit, st, w). apiLimit - l_skip st)"
    by (auto simp: case_prod_beta intro: diff_less_mono2)
qed

declare slice_loop.simps [simp del]

definition fetchAndUpsertBatchesInternal ::
  "env \<Rightarrow> odata_filter option \<Rightarrow> bool \<Rightarrow> world \<Rightarrow> (error + slice_result) \<times> world" where
  "fetchAndUpsertBatchesInternal e flt failOnLimit w = slice_loop Listings e flt failOnLimit locals0 w"

definition fetchAndUpsertMediaBatchesInternal ::
  "env \<Rightarrow> odata_filter option \<Rightarrow> bool \<Rightarrow> world \<Rightarrow> (error + slice_result) \<times> world" where
  "fetchAndUpsertMediaBatchesInternal e flt failOnLimit w = slice_loop Media e flt failOnLimit locals0 w"

section \<open>The window scheduler for media: \<^verbatim>\<open>lib/sync/mediaSync.js\<close>\<close>

text \<open>
  \<^verbatim>\<open>d.setDate(d.getDate() + n)\<close> moves a date by \<open>n\<close> days and \<^verbatim>\<open>setHours(h, 0, 0, 0)\<close> moves it to
  hour \<open>h\<close> of its own calendar day; the process runs in UTC, where a day is always 24 hours.
\<close>

definition day :: int where
  "day = 86400000"

definition hour_ms :: int where
  "hour_ms = 3600000"

definition setHours :: "timestamp \<Rightarrow> int \<Rightarrow> timestamp" where
  "setHours d h = d - d mod day + h * hour_ms"

text \<open>The running \<^verbatim>\<open>totalFetched\<close>, \<^verbatim>\<open>totalUpserted\<close> and \<^verbatim>\<open>latestTimestamp\<close> of a scheduler function.\<close>

record totals =
  sum_fetched :: nat
  sum_upserted :: nat
  sum_latest :: "timestamp option"

definition totals0 :: totals where
  "totals0 = \<lparr>sum_fetched = 0, sum_upserted = 0, sum_latest = None\<rparr>"

definition add_slice :: "totals \<Rightarrow> slice_result \<Rightarrow> totals" where
  "add_slice acc r =
     \<lparr>sum_fetched = sum_fetched acc + totalFetched r,
      sum_upserted = sum_upserted acc + totalUpserted r,
      sum_latest = newer (sum_latest acc) (latestTimestamp r)\<rparr>"

definition add_totals :: "totals \<Rightarrow> totals \<Rightarrow> totals" where
  "add_totals acc r =
     \<lparr>sum_fetched = sum_fetched acc + sum_fetched r,
      sum_upserted = sum_upserted acc + sum_upserted r,
      sum_latest = newer (sum_latest acc) (sum_latest r)\<rparr>"

subsection \<open>\<^verbatim>\<open>fetchMediaDailyInRange\<close>\<close>

text \<open>The \<^verbatim>\<open>for (let hour = 0; hour < 24; hour++)\<close> loop over the hours still to do.\<close>

fun hours_loop :: "env \<Rightarrow> timestamp \<Rightarrow> nat list \<Rightarrow> totals \<Rightarrow> world \<Rightarrow> (error + totals) \<times> world" where
  "hours_loop e dayStart [] acc w = (Inr acc, w)"
| "hours_loop e dayStart (h # hs) acc w =
     (case fetchAndUpsertMediaBatchesInternal e
             (Some (Range (setHours dayStart (int h)) (setHours dayStart (int h + 1)))) False w of
        (Inl err, w') \<Rightarrow> (Inl err, w')
      | (Inr hourResult, w') \<Rightarrow> hours_loop e dayStart hs (add_slice acc hourResult) w')"

function days_loop ::
  "env \<Rightarrow> timestamp \<Rightarrow> timestamp \<Rightarrow> totals \<Rightarrow> world \<Rightarrow> (error + totals) \<times> world" where
  "days_loop e currentDate rangeEnd acc w =
     (if currentDate < rangeEnd then
        (case fetchAndUpsertMediaBatchesInternal e
                (Some (Range currentDate (currentDate + day))) False w of
           (Inl err, w') \<Rightarrow> (Inl err, w')
         | (Inr result, w') \<Rightarrow>
             (if hitLimit result then
                (case hours_loop e currentDate [0..<24] acc w' of
                   (Inl err, w'') \<Rightarrow> (Inl err, w'')
                 | (Inr acc', w'') \<Rightarrow> days_loop e (currentDate + day) rangeEnd acc' w'')
              else days_loop e (currentDate + day) rangeEnd (add_slice acc result) w'))
      else (Inr acc, w))"
  by pat_completeness auto
termination
  by (relation "measure (\<lambda>(e, currentDate, rangeEnd, acc, w). nat (rangeEnd - currentDate))")
     (auto simp: day_def)

declare days_loop.simps [simp del]

definition fetchMediaDailyInRange ::
  "env \<Rightarrow> timestamp \<Rightarrow> timestamp \<Rightarrow> world \<Rightarrow> (error + totals) \<times> world" where
  "fetchMediaDailyInRange e rangeStart rangeEnd w = days_loop e rangeStart rangeEnd totals0 w"

subsection \<open>\<^verbatim>\<open>fetchMediaInDateChunks\<close>: the backward walk of a full run\<close>

record walk =
  chunkCount :: nat
  emptyChunks :: nat
  startDate :: timestamp
  endDate :: timestamp
  sums :: totals
  skippedWeeks :: "(timestamp \<times> timestamp \<times> nat) list"

definition maxChunks :: nat where
  "maxChunks = 500"

definition daysPerChunk :: int where
  "daysPerChunk = 7"

text \<open>
  \<^verbatim>\<open>// Move to next chunk\<close> and the test \<^verbatim>\<open>startDate <= targetStartDate\<close> that follows it, which
  leaves the loop before the window just computed is fetched.
\<close>

definition next_chunk ::
  "timestamp \<Rightarrow> walk \<Rightarrow> world \<Rightarrow> ((error + walk) \<times> world, walk \<times> world) turn" where
  "next_chunk targetStartDate st w =
     (let st' = st\<lparr>endDate := startDate st, startDate := startDate st - daysPerChunk * day\<rparr>
      in if startDate st' \<le> targetStartDate then Leave (Inr st', w) else Again (st', w))"

text \<open>The body of \<^verbatim>\<open>while (chunkCount < maxChunks)\<close>.\<close>

definition chunk_turn ::
  "env \<Rightarrow> timestamp \<Rightarrow> walk \<Rightarrow> world \<Rightarrow> ((error + walk) \<times> world, walk \<times> world) turn" where
  "chunk_turn e targetStartDate st w =
     (let st1 = st\<lparr>chunkCount := chunkCount st + 1\<rparr> in
      case fetchAndUpsertMediaBatchesInternal e
             (Some (Range (startDate st1) (endDate st1))) False w of
        (Inl err, w') \<Rightarrow> Leave (Inl err, w')
      | (Inr result, w') \<Rightarrow>
          (let st2 = st1\<lparr>sums := add_slice (sums st1) result\<rparr> in
           if totalFetched result = 0 then
             (let st3 = st2\<lparr>emptyChunks := emptyChunks st2 + 1\<rparr>
              in if emptyChunks st3 \<ge> 10 then Leave (Inr st3, w')
                 else next_chunk targetStartDate st3 w')
           else
             (let st3 = st2\<lparr>emptyChunks := 0\<rparr>;
                  st4 = (if hitLimit result
                         then st3\<lparr>skippedWeeks := skippedWeeks st3
                                     @ [(startDate st3, endDate st3, totalFetched result)],
                                   sums := add_slice (sums st3) result\<rparr>
                         else st3)
              in next_chunk targetStartDate st4 w')))"

function chunks_loop ::
  "env \<Rightarrow> timestamp \<Rightarrow> walk \<Rightarrow> world \<Rightarrow> (error + walk) \<times> world" where
  "chunks_loop e targetStartDate st w =
     (if chunkCount st < maxChunks then
        (case chunk_turn e targetStartDate st w of
           Leave r \<Rightarrow> r
         | Again nxt \<Rightarrow> chunks_loop e targetStartDate (fst nxt) (snd nxt))
      else (Inr st, w))"
  by pat_completeness auto
termination
proof (relation "measure (\<lambda>(e, targetStartDate, st, w). maxChunks - chunkCount st)")
  show "wf (measure (\<lambda>(e, targetStartDate, st, w). maxChunks - chunkCount st))"
    by simp
next
  fix e :: env and targetStartDate :: timestamp and st :: walk and w :: world
    and nxt :: "walk \<times> world"
  assume less: "chunkCount st < maxChunks"
    and again: "chunk_turn e targetStartDate st w = Again nxt"
  have step: "chunkCount (fst nx) = chunkCount s"
    if "next_chunk targetStartDate s w' = Again nx" for s w' nx
    using that by (auto simp: next_chunk_def Let_def split: if_splits)
  from again have "chunkCount (fst nxt) = chunkCount st + 1"
    by (auto simp: chunk_turn_def Let_def split: prod.splits sum.splits if_splits dest!: step)
  with less show "((e, targetStartDate, fst nxt, snd nxt), (e, targetStartDate, st, w))
             \<in> measure (\<lambda>(e, targetStartDate, st, w). maxChunks - chunkCount st)"
    by (auto simp: case_prod_beta)
qed

declare chunks_loop.simps [simp del]

text \<open>
  \<^verbatim>\<open>// Process skipped weeks if any\<close>: a week whose drill-down throws is logged and passed over.
\<close>

fun skipped_loop ::
  "env \<Rightarrow> (timestamp \<times> timestamp \<times> nat) list \<Rightarrow> totals \<Rightarrow> world \<Rightarrow> totals \<times> world" where
  "skipped_loop e [] acc w = (acc, w)"
| "skipped_loop e (week # weeks) acc w =
     (case fetchMediaDailyInRange e (fst week) (fst (snd week)) w of
        (Inl err, w') \<Rightarrow> skipped_loop e weeks acc w'
      | (Inr dailyResults, w') \<Rightarrow> skipped_loop e weeks (add_totals acc dailyResults) w')"

text \<open>What a resource run returns to the coordinator.\<close>

record run_result =
  run_fetched :: nat
  run_upserted :: nat
  run_unique :: nat
  run_latest :: "timestamp option"

definition walk0 :: "timestamp \<Rightarrow> walk" where
  "walk0 now =
     \<lparr>chunkCount = 0, emptyChunks = 0,
      startDate = now + day - daysPerChunk * day, endDate = now + day,
      sums = totals0, skippedWeeks = []\<rparr>"

definition fetchMediaInDateChunks :: "env \<Rightarrow> world \<Rightarrow> (error + run_result) \<times> world" where
  "fetchMediaInDateChunks e w =
     (case chunks_loop e (mediaSyncStartDate e) (walk0 (clock e (tick w) 0)) w of
        (Inl err, w') \<Rightarrow> (Inl err, w')
      | (Inr st, w') \<Rightarrow>
          (case skipped_loop e (skippedWeeks st) (sums st) w' of
             (tot, w'') \<Rightarrow>
               (Inr \<lparr>run_fetched = sum_fetched tot, run_upserted = sum_upserted tot,
                     run_unique = length (seen w''), run_latest = sum_latest tot\<rparr>, w'')))"

subsection \<open>\<^verbatim>\<open>fetchMediaInDateRange\<close>: the walk an incremental run falls back to\<close>

text \<open>
  \<^verbatim>\<open>while (currentEnd > startDate && rangeChunkCount < 100)\<close>. Here the start of a window that
  would begin before the range is moved up to its start and the window is fetched; \<open>fromDate\<close>
  and \<open>toDate\<close> are the function's \<^verbatim>\<open>startDate\<close> and \<^verbatim>\<open>endDate\<close>.
\<close>

function range_loop ::
  "env \<Rightarrow> timestamp \<Rightarrow> timestamp \<Rightarrow> timestamp \<Rightarrow> nat \<Rightarrow> totals \<Rightarrow> world
   \<Rightarrow> (error + totals) \<times> world" where
  "range_loop e fromDate currentStart currentEnd rangeChunkCount acc w =
     (if currentEnd > fromDate \<and> rangeChunkCount < 100 then
        (let currentStart' = (if currentStart < fromDate then fromDate else currentStart) in
         case fetchAndUpsertMediaBatchesInternal e
                (Some (Range currentStart' currentEnd)) False w of
           (Inl err, w') \<Rightarrow> (Inl err, w')
         | (Inr result, w') \<Rightarrow>
             (if hitLimit result then
                (case fetchMediaDailyInRange e currentStart' currentEnd w' of
                   (Inl err, w'') \<Rightarrow> (Inl err, w'')
                 | (Inr dailyResults, w'') \<Rightarrow>
                     range_loop e fromDate (currentStart' - daysPerChunk * day) currentStart'
                       (rangeChunkCount + 1) (add_totals acc dailyResults) w'')
              else
                range_loop e fromDate (currentStart' - daysPerChunk * day) currentStart'
                  (rangeChunkCount + 1) (add_slice acc result) w'))
      else (Inr acc, w))"
  by pat_completeness auto
termination
  by (relation "measure (\<lambda>(e, fromDate, currentStart, currentEnd, rangeChunkCount, acc, w).
                            100 - rangeChunkCount)")
     auto

declare range_loop.simps [simp del]

definition fetchMediaInDateRange ::
  "env \<Rightarrow> timestamp \<Rightarrow> timestamp \<Rightarrow> world \<Rightarrow> (error + totals) \<times> world" where
  "fetchMediaInDateRange e fromDate toDate w =
     range_loop e fromDate (toDate - daysPerChunk * day) toDate 0 totals0 w"

subsection \<open>\<^verbatim>\<open>fetchMediaWithSmartPagination\<close> and \<^verbatim>\<open>fetchMediaRecords\<close>\<close>

text \<open>
  A run begins with \<^verbatim>\<open>new Set()\<close>: whatever the world has seen before, the run's set is empty.
\<close>

definition run_return :: "totals \<Rightarrow> world \<Rightarrow> (error + run_result) \<times> world" where
  "run_return acc w =
     (Inr \<lparr>run_fetched = sum_fetched acc, run_upserted = sum_upserted acc,
           run_unique = length (seen w), run_latest = sum_latest acc\<rparr>, w)"

text \<open>
  \<^verbatim>\<open>x ? new Date(x) : d\<close>, for a stored checkpoint and for the text of an upstream timestamp.
\<close>

fun date_or :: "timestamp option \<Rightarrow> timestamp \<Rightarrow> timestamp" where
  "date_or (Some t) d = t"
| "date_or None d = d"

fun stamp_or :: "stamp option \<Rightarrow> timestamp \<Rightarrow> timestamp" where
  "stamp_or None d = d"
| "stamp_or (Some s) d = (if written s = [] then d else instant s)"

text \<open>\<^verbatim>\<open>new Date('2010-01-01')\<close> and \<^verbatim>\<open>new Date('2000-01-01')\<close>.\<close>

definition date_2010_01_01 :: timestamp where
  "date_2010_01_01 = 1262304000000"

definition date_2000_01_01 :: timestamp where
  "date_2000_01_01 = 946684800000"

definition fetchMediaWithSmartPagination ::
  "env \<Rightarrow> odata_filter option \<Rightarrow> bool \<Rightarrow> world \<Rightarrow> (error + run_result) \<times> world" where
  "fetchMediaWithSmartPagination e baseFilter incremental w =
     (if \<not> incremental then fetchMediaInDateChunks e (w\<lparr>seen := []\<rparr>)
      else
        (case fetchAndUpsertMediaBatchesInternal e baseFilter False (w\<lparr>seen := []\<rparr>) of
           (Inl err, w1) \<Rightarrow> (Inl err, w1)
         | (Inr result, w1) \<Rightarrow>
             (let acc = add_slice totals0 result in
              if hitLimit result then
                (let oldestFetched = stamp_or (oldestTimestamp result) (clock e (tick w1) 0) in
                 case getSyncLog ''MEDIA'' (handle w1) of
                   Inl err \<Rightarrow> (Inl err, w1)
                 | Inr lastSync \<Rightarrow>
                     (let startFrom = date_or lastSync date_2010_01_01 in
                      if oldestFetched > startFrom then
                        (case fetchMediaInDateRange e startFrom oldestFetched w1 of
                           (Inl err, w2) \<Rightarrow> (Inl err, w2)
                         | (Inr remainingResult, w2) \<Rightarrow>
                             run_return (add_totals acc remainingResult) w2)
                      else run_return acc w1))
              else run_return acc w1)))"

text \<open>The token is set; an incremental run without a stored checkpoint is a full run.\<close>

definition fetchMediaRecords ::
  "env \<Rightarrow> bool \<Rightarrow> world \<Rightarrow> (error + run_result) \<times> world" where
  "fetchMediaRecords e incremental w =
     (if incremental then
        (case getSyncLog ''MEDIA'' (handle w) of
           Inl err \<Rightarrow> (Inl err, w)
         | Inr (Some lastSync) \<Rightarrow>
             fetchMediaWithSmartPagination e (Some (Gt lastSync)) True w
         | Inr None \<Rightarrow> fetchMediaWithSmartPagination e None False w)
      else fetchMediaWithSmartPagination e None False w)"

section \<open>The window scheduler for listings: \<^verbatim>\<open>lib/sync/propertySync.js\<close>\<close>

text \<open>
  \<^verbatim>\<open>fetchOlderRecordsInChunks\<close>: \<^verbatim>\<open>while (chunkCount < maxChunks)\<close> with \<^verbatim>\<open>maxChunks = 50\<close>. The chunk
  filter is built from the dates alone (\<^verbatim>\<open>baseFilter\<close> is not used), and
  \<^verbatim>\<open>seenListingKeys.size >= expectedRecords * 1.2\<close> is compared in whole numbers.
\<close>

function older_loop ::
  "env \<Rightarrow> nat \<Rightarrow> int \<Rightarrow> timestamp \<Rightarrow> timestamp \<Rightarrow> nat \<Rightarrow> totals \<Rightarrow> world
   \<Rightarrow> (error + totals) \<times> world" where
  "older_loop e expectedRecords days start end' count acc w =
     (if count < 50 then
        (case fetchAndUpsertBatchesInternal e (Some (Range start end')) True w of
           (Inl err, w') \<Rightarrow> (Inl err, w')
         | (Inr result, w') \<Rightarrow>
             (if totalFetched result = 0 then
                (if start - days * day < date_2000_01_01 then (Inr (add_slice acc result), w')
                 else older_loop e expectedRecords days (start - days * day) start (count + 1)
                        (add_slice acc result) w')
              else
                (let days' = (if hitLimit result then max 1 (days div 2) else days) in
                 if 5 * length (seen w') \<ge> 6 * expectedRecords
                 then (Inr (add_slice acc result), w')
                 else older_loop e expectedRecords days' (start - days' * day) start (count + 1)
                        (add_slice acc result) w')))
      else (Inr acc, w))"
  by pat_completeness auto
termination
  by (relation "measure (\<lambda>(e, expectedRecords, days, start, end', count, acc, w). 50 - count)")
     auto

declare older_loop.simps [simp del]

definition fetchOlderRecordsInChunks ::
  "env \<Rightarrow> timestamp \<Rightarrow> nat \<Rightarrow> world \<Rightarrow> (error + totals) \<times> world" where
  "fetchOlderRecordsInChunks e beforeDate expectedRecords w =
     (let days = (if expectedRecords > 1000000 then 7
                  else if expectedRecords > 100000 then 30 else 90)
      in older_loop e expectedRecords days (beforeDate - days * day) beforeDate 0 totals0 w)"

definition fetchWithSmartPagination ::
  "env \<Rightarrow> odata_filter option \<Rightarrow> nat \<Rightarrow> world \<Rightarrow> (error + run_result) \<times> world" where
  "fetchWithSmartPagination e baseFilter expectedRecords w =
     (case fetchAndUpsertBatchesInternal e baseFilter False (w\<lparr>seen := []\<rparr>) of
        (Inl err, w1) \<Rightarrow> (Inl err, w1)
      | (Inr firstResult, w1) \<Rightarrow>
          (let acc = add_slice totals0 firstResult in
           if hitLimit firstResult \<or> sum_fetched acc \<ge> 99000 then
             (let oldestDate = stamp_or (oldestTimestamp firstResult) (clock e (tick w1) 0) in
              case fetchOlderRecordsInChunks e oldestDate expectedRecords w1 of
                (Inl err, w2) \<Rightarrow> (Inl err, w2)
              | (Inr olderResults, w2) \<Rightarrow> run_return (add_totals acc olderResults) w2)
           else run_return acc w1))"

text \<open>
  \<^verbatim>\<open>fetchIDXProperties\<close> and \<^verbatim>\<open>fetchVOWProperties\<close> differ in the label and in the expected
  number of records.
\<close>

definition fetchProperties ::
  "string \<Rightarrow> nat \<Rightarrow> env \<Rightarrow> bool \<Rightarrow> world \<Rightarrow> (error + run_result) \<times> world" where
  "fetchProperties label expectedRecords e incremental w =
     (if incremental then
        (case getSyncLog label (handle w) of
           Inl err \<Rightarrow> (Inl err, w)
         | Inr (Some lastSync) \<Rightarrow> fetchWithSmartPagination e (Some (Gt lastSync)) expectedRecords w
         | Inr None \<Rightarrow> fetchWithSmartPagination e None expectedRecords w)
      else fetchWithSmartPagination e None expectedRecords w)"

definition fetchIDXProperties ::
  "env \<Rightarrow> bool \<Rightarrow> world \<Rightarrow> (error + run_result) \<times> world" where
  "fetchIDXProperties = fetchProperties ''IDX'' 100000"

definition fetchVOWProperties ::
  "env \<Rightarrow> bool \<Rightarrow> world \<Rightarrow> (error + run_result) \<times> world" where
  "fetchVOWProperties = fetchProperties ''VOW'' 250000"

section \<open>The coordinator: \<^verbatim>\<open>sync.js\<close>\<close>

text \<open>
  \<^verbatim>\<open>processProperties\<close> and \<^verbatim>\<open>processMedia\<close>, given the run's outcome: the checkpoint is written
  when the run returned a truthy \<^verbatim>\<open>latestTimestamp\<close>, an error of that write is only logged, and
  an error of the run is rethrown only under \<^verbatim>\<open>--fail-fast\<close>.
\<close>

definition after_run ::
  "string \<Rightarrow> bool \<Rightarrow> env \<Rightarrow> (error + run_result) \<times> world \<Rightarrow> (error + unit) \<times> world" where
  "after_run label failFast e done_run =
     (case done_run of
        (Inl err, w') \<Rightarrow> (if failFast then Inl err else Inr (), w')
      | (Inr result, w') \<Rightarrow>
          (case run_latest result of
             None \<Rightarrow> (Inr (), w')
           | Some t \<Rightarrow>
               (Inr (),
                w'\<lparr>handle := snd (updateSyncLog (clock e (tick w') 0) label (Stamp t)
                                    (handle w'))\<rparr>)))"

definition processProperties ::
  "string \<Rightarrow> (env \<Rightarrow> bool \<Rightarrow> world \<Rightarrow> (error + run_result) \<times> world)
   \<Rightarrow> bool \<Rightarrow> bool \<Rightarrow> env \<Rightarrow> world \<Rightarrow> (error + unit) \<times> world" where
  "processProperties label fetchFn incremental failFast e w =
     after_run label failFast e (fetchFn e incremental w)"

definition processMedia ::
  "bool \<Rightarrow> bool \<Rightarrow> env \<Rightarrow> world \<Rightarrow> (error + unit) \<times> world" where
  "processMedia incremental failFast e w =
     after_run ''MEDIA'' failFast e (fetchMediaRecords e incremental w)"

section \<open>Notions used to state the properties\<close>

text \<open>The key columns of a mapped row are present; the set member the row's record stands for.\<close>

fun row_has_key :: "resource \<Rightarrow> row \<Rightarrow> bool" where
  "row_has_key Listings m = present (col_ListingKey m)"
| "row_has_key Media m = (present (col_ResourceRecordKey m) \<and> present (col_MediaKey m))"

fun row_key :: "resource \<Rightarrow> row \<Rightarrow> string" where
  "row_key Listings m = printed (col_ListingKey m)"
| "row_key Media m = printed (col_ResourceRecordKey m) @ ''_'' @ printed (col_MediaKey m)"

text \<open>
  From world \<open>w\<close> to world \<open>w'\<close> some batches were handed to \<^verbatim>\<open>upsertBatch\<close>, every row of them
  has its key columns, and the set of seen keys gained exactly the keys of those rows, in order.
\<close>

definition grows :: "resource \<Rightarrow> world \<Rightarrow> world \<Rightarrow> bool" where
  "grows k w w' \<longleftrightarrow>
     (\<exists>batches. writes w' = writes w @ batches
        \<and> (\<forall>b\<in>set batches. \<forall>m\<in>set b. row_has_key k m)
        \<and> seen w' = seen w @ concat (map (map (row_key k)) batches))"

text \<open>The store never answers with an error that carries the upstream's cap marker.\<close>

definition polite_store :: "env \<Rightarrow> bool" where
  "polite_store e \<longleftrightarrow> (\<forall>t rows err. store e t rows = StoreThrows err \<longrightarrow> \<not> cap_exceeded err)"

text \<open>
  The timestamp \<^verbatim>\<open>findLatestTimestamp\<close> reads off a mapped row: the first of its timestamp
  fields that is set, which is the upstream's timestamp when the record has one and the
  \<^verbatim>\<open>UpdatedAt\<close> of the mapping otherwise.
\<close>

definition checkpoint_stamp :: "resource \<Rightarrow> row \<Rightarrow> timestamp option" where
  "checkpoint_stamp k m = first_truthy (timestampFields k m)"

text \<open>The rows handed to \<^verbatim>\<open>upsertBatch\<close> between world \<open>w\<close> and world \<open>w'\<close>.\<close>

definition handed_over :: "world \<Rightarrow> world \<Rightarrow> row list" where
  "handed_over w w' = concat (drop (length (writes w)) (writes w'))"

text \<open>A timestamp that is missing, or not before \<open>c\<close>.\<close>

fun at_least :: "timestamp \<Rightarrow> timestamp option \<Rightarrow> bool" where
  "at_least c None = True"
| "at_least c (Some t) = (c \<le> t)"

text \<open>
  From world \<open>w\<close> to world \<open>w'\<close> the module variable \<^verbatim>\<open>supabase\<close> was left alone, some batches
  were handed to \<^verbatim>\<open>upsertBatch\<close>, and the timestamp \<open>x\<close>, if there is one, is the timestamp read
  off a row of those batches.
\<close>

definition recorded :: "resource \<Rightarrow> world \<Rightarrow> world \<Rightarrow> timestamp option \<Rightarrow> bool" where
  "recorded k w w' x \<longleftrightarrow>
     handle w' = handle w
     \<and> (\<exists>batches. writes w' = writes w @ batches
          \<and> (\<forall>t. x = Some t \<longrightarrow> (\<exists>m\<in>set (concat batches). checkpoint_stamp k m = Some t)))"

text \<open>The latest timestamp of an outcome: that of the result, and none when it is an error.\<close>

fun shown :: "('a \<Rightarrow> timestamp option) \<Rightarrow> error + 'a \<Rightarrow> timestamp option" where
  "shown f (Inl err) = None"
| "shown f (Inr r) = f r"

section \<open>Concrete inputs\<close>

text \<open>Midnight UTC of a day of January 2024, counted from the 1st.\<close>

definition jan :: "int \<Rightarrow> timestamp" where
  "jan n = 1704067200000 + (n - 1) * 86400000"

text \<open>A transport that answers every request with \<^verbatim>\<open>404 Not Found\<close> and an empty body.\<close>

definition always_404 :: "nat \<Rightarrow> attempt" where
  "always_404 k = Status 404 ''Not Found'' []"

text \<open>A body that parses, whose \<^verbatim>\<open>value\<close> member is a string.\<close>

definition string_body :: json where
  "string_body = JObj [(''value'', JStr ''abc'')]"

definition string_network :: "string \<Rightarrow> nat \<Rightarrow> attempt" where
  "string_network url k = Parsed string_body"

text \<open>The request for the first page of the media feed, as a slice sends it.\<close>

definition first_page :: page_request where
  "first_page = \<lparr>rq_baseUrl = ''https://query.ampre.ca/odata/Media'', rq_top = 5000, rq_next = None,
                  rq_skip = Some 0, rq_filter = None, rq_orderby = None\<rparr>"

text \<open>A body without \<^verbatim>\<open>value\<close> and without a next link, whose \<^verbatim>\<open>@odata.count\<close> is \<open>0\<close>.\<close>

definition counted_body :: json where
  "counted_body = JObj [(''@odata.count'', JNum 0)]"

definition counted_network :: "string \<Rightarrow> nat \<Rightarrow> attempt" where
  "counted_network url k = Parsed counted_body"

text \<open>An initialised database whose \<^verbatim>\<open>sync_log\<close> table is empty.\<close>

definition empty_log :: database where
  "empty_log = \<lparr>sync_log = Map.empty, sync_fault = None\<rparr>"

text \<open>
  The state at the start of a resource run: the database is initialised, nothing called,
  nothing seen.
\<close>

definition world0 :: world where
  "world0 = \<lparr>tick = 0, seen = [], handle = Some empty_log, writes = [], finished = []\<rparr>"

text \<open>
  An upstream that answers every page request with the cap marker, and a store that reports
  as many rows as it was given.
\<close>

definition capped_server :: "nat \<Rightarrow> odata_filter option \<Rightarrow> nat \<Rightarrow> fetched" where
  "capped_server t flt sk = FetchThrows (Failure ''HTTP 400 - total exceeds 100000'')"

definition capped_env :: env where
  "capped_env = \<lparr>server = capped_server, store = (\<lambda>t rows. Returned (Some (length rows))),
                  batchSize = 5000, clock = (\<lambda>t i. jan 10),
                  mediaSyncStartDate = jan 1\<rparr>"

text \<open>The timestamp texts of midnight UTC of 2024-01-02 and of 2024-01-06.\<close>

definition on_jan_2 :: stamp where
  "on_jan_2 = \<lparr>written = ''2024-01-02T00:00:00Z'', instant = jan 2\<rparr>"

definition on_jan_6 :: stamp where
  "on_jan_6 = \<lparr>written = ''2024-01-06T00:00:00Z'', instant = jan 6\<rparr>"

text \<open>
  A media record modified on 2024-01-06, the same record with an empty \<^verbatim>\<open>MediaKey\<close>, and an
  upstream whose first page holds both.
\<close>

definition photo :: raw where
  "photo = \<lparr>ListingKey = None, ResourceRecordKey = Some ''L1'', MediaKey = Some ''M1'',
             MediaModificationTimestamp = Some on_jan_6, ModificationTimestamp = None,
             ModifiedOn = None\<rparr>"

definition nameless :: raw where
  "nameless = \<lparr>ListingKey = None, ResourceRecordKey = Some ''L1'', MediaKey = Some [],
                MediaModificationTimestamp = Some on_jan_6, ModificationTimestamp = None,
                ModifiedOn = None\<rparr>"

definition mixed_server :: "nat \<Rightarrow> odata_filter option \<Rightarrow> nat \<Rightarrow> fetched" where
  "mixed_server t flt sk = (if sk = 0 then Page [nameless, photo] else Page [])"

definition mixed_env :: env where
  "mixed_env = \<lparr>server = mixed_server, store = (\<lambda>t rows. Returned (Some (length rows))),
                 batchSize = 5000, clock = (\<lambda>t i. jan 10),
                 mediaSyncStartDate = jan 1\<rparr>"

text \<open>
  An upstream holding two media records, modified on 2024-01-02 and on 2024-01-06, which
  answers every filter with the records that satisfy it. The run starts on 2024-01-10 with the
  default floor 2024-01-01 and the default batch size.
\<close>

definition early_photo :: raw where
  "early_photo = \<lparr>ListingKey = None, ResourceRecordKey = Some ''L1'', MediaKey = Some ''M0'',
                   MediaModificationTimestamp = Some on_jan_2, ModificationTimestamp = None,
                   ModifiedOn = None\<rparr>"

fun in_window :: "odata_filter option \<Rightarrow> raw \<Rightarrow> bool" where
  "in_window None r = True"
| "in_window (Some (Gt t)) r =
     (case MediaModificationTimestamp r of Some m \<Rightarrow> t < instant m | None \<Rightarrow> False)"
| "in_window (Some (Range a b)) r =
     (case MediaModificationTimestamp r of
        Some m \<Rightarrow> a \<le> instant m \<and> instant m < b
      | None \<Rightarrow> False)"

definition archive_server :: "nat \<Rightarrow> odata_filter option \<Rightarrow> nat \<Rightarrow> fetched" where
  "archive_server t flt sk = Page (take 5000 (drop sk (filter (in_window flt) [early_photo, photo])))"

definition archive_env :: env where
  "archive_env = \<lparr>server = archive_server, store = (\<lambda>t rows. Returned (Some (length rows))),
                   batchSize = 5000, clock = (\<lambda>t i. jan 10), mediaSyncStartDate = jan 1\<rparr>"

text \<open>
  An upstream holding the record of 2024-01-06 whose week saturates: with a batch size of 1,
  the page after the first of the week from 2024-01-04 to 2024-01-11 is answered with the cap
  marker. Every other filter is answered as it asks.
\<close>

definition hot_server :: "nat \<Rightarrow> odata_filter option \<Rightarrow> nat \<Rightarrow> fetched" where
  "hot_server t flt sk =
     (if flt = Some (Range (jan 4) (jan 11)) \<and> sk \<noteq> 0
      then FetchThrows (Failure ''HTTP 400 - total exceeds 100000'')
      else Page (take 1 (drop sk (filter (in_window flt) [photo]))))"

definition hot_env :: env where
  "hot_env = \<lparr>server = hot_server, store = (\<lambda>t rows. Returned (Some (length rows))),
               batchSize = 1, clock = (\<lambda>t i. jan 10), mediaSyncStartDate = jan 1\<rparr>"

text \<open>An upstream whose only record has an empty \<^verbatim>\<open>MediaKey\<close>.\<close>

definition keyless_server :: "nat \<Rightarrow> odata_filter option \<Rightarrow> nat \<Rightarrow> fetched" where
  "keyless_server t flt sk = Page (take 5000 (drop sk (filter (in_window flt) [nameless])))"

definition keyless_env :: env where
  "keyless_env = \<lparr>server = keyless_server, store = (\<lambda>t rows. Returned (Some (length rows))),
                   batchSize = 5000, clock = (\<lambda>t i. jan 10), mediaSyncStartDate = jan 1\<rparr>"

text \<open>
  A database whose \<^verbatim>\<open>sync_log\<close> holds the checkpoint \<open>t\<close> for media, and the start of a
  resource run on that database.
\<close>

definition media_log :: "timestamp \<Rightarrow> database" where
  "media_log t = \<lparr>sync_log = [''MEDIA'' \<mapsto> \<lparr>lastprocessedtimestamp = t, updatedat = t\<rparr>],
                  sync_fault = None\<rparr>"

definition world_at :: "timestamp \<Rightarrow> world" where
  "world_at t = \<lparr>tick = 0, seen = [], handle = Some (media_log t), writes = [], finished = []\<rparr>"

text \<open>
  An upstream holding the records of 2024-01-06 and of 2024-01-08 in which, with a batch size
  of 1, the week from 2024-01-04 and the day 2024-01-08 both saturate: the page after their
  first is answered with the cap marker. Every other filter is answered as it asks.
\<close>

definition on_jan_8 :: stamp where
  "on_jan_8 = \<lparr>written = ''2024-01-08T00:00:00Z'', instant = jan 8\<rparr>"

definition late_photo :: raw where
  "late_photo = \<lparr>ListingKey = None, ResourceRecordKey = Some ''L1'', MediaKey = Some ''M2'',
                  MediaModificationTimestamp = Some on_jan_8, ModificationTimestamp = None,
                  ModifiedOn = None\<rparr>"

definition busy_server :: "nat \<Rightarrow> odata_filter option \<Rightarrow> nat \<Rightarrow> fetched" where
  "busy_server t flt sk =
     (if (flt = Some (Range (jan 4) (jan 11)) \<or> flt = Some (Range (jan 8) (jan 9))) \<and> sk \<noteq> 0
      then FetchThrows (Failure ''HTTP 400 - total exceeds 100000'')
      else Page (take 1 (drop sk (filter (in_window flt) [photo, late_photo]))))"

definition busy_env :: env where
  "busy_env = \<lparr>server = busy_server, store = (\<lambda>t rows. Returned (Some (length rows))),
                batchSize = 1, clock = (\<lambda>t i. jan 10), mediaSyncStartDate = jan 1\<rparr>"

section \<open>The page fetcher retries every failure\<close>

text \<open>
  Claim C3, as the code has it. \<^verbatim>\<open>fetchWithRetry\<close> with the constructor's defaults sends at most
  three requests and stops at the first body that parses. A failed request of any kind (a
  rejected request, a response that is not \<^verbatim>\<open>ok\<close> whatever its status, a body that does not
  parse) is followed by the next request; the function sleeps 500 ms after the first failure
  and 1000 ms after the second, and after the third failure it throws that failure's error
  without sleeping.
\<close>

theorem fetchWithRetry_retries_every_failure:
  "fetchWithRetry new_ApiClient url tr =
     (case tr 1 of
        Parsed j \<Rightarrow> \<lparr>outcome = Inr j, requests = 1, sleeps = []\<rparr>
      | f1 \<Rightarrow>
        (case tr 2 of
           Parsed j \<Rightarrow> \<lparr>outcome = Inr j, requests = 2, sleeps = [500]\<rparr>
         | f2 \<Rightarrow>
           (case tr 3 of
              Parsed j \<Rightarrow> \<lparr>outcome = Inr j, requests = 3, sleeps = [500, 1000]\<rparr>
            | f3 \<Rightarrow> \<lparr>outcome = Inl (case attempt_error url f3 of
                                        None \<Rightarrow> ThrownUndefined | Some e \<Rightarrow> e),
                       requests = 3, sleeps = [500, 1000]\<rparr>)))"
  by (cases "tr 1"; cases "tr 2"; cases "tr 3")
     (simp_all add: fetchWithRetry_def new_ApiClient_def retry_loop.simps
        numeral_2_eq_2 numeral_3_eq_3)

text \<open>
  Claim C3 fails as stated: an upstream that answers \<^verbatim>\<open>404\<close> every time is asked three times,
  with both backoff delays, where the claim has a 4xx status other than 429 not retried.
\<close>

theorem not_found_is_retried:
  "requests (fetchWithRetry new_ApiClient ''https://query.ampre.ca/odata/Media'' always_404) = 3
   \<and> sleeps (fetchWithRetry new_ApiClient ''https://query.ampre.ca/odata/Media'' always_404) = [500, 1000]"
  by (simp add: fetchWithRetry_def new_ApiClient_def always_404_def retry_loop.simps)

section \<open>The checkpoint store and an empty timestamp\<close>

text \<open>
  Claim C8, as the code has it. A call of \<^verbatim>\<open>updateSyncLog\<close> with a falsy timestamp never changes
  the stored state; it returns without raising when the database handle is initialised, and
  raises \<^verbatim>\<open>Database not initialized\<close> when it is not, because that guard comes first.
\<close>

theorem updateSyncLog_empty_timestamp:
  "falsy ts \<Longrightarrow>
   updateSyncLog now resourceType ts supabase =
     (if supabase = None then Inl DatabaseNotInitialized else Inr (), supabase)"
  by (cases ts) (auto simp: updateSyncLog_def split: option.splits)

text \<open>The theorem for C8 at an initialised, empty database and the empty string.\<close>

theorem updateSyncLog_empty_timestamp_witness:
  "falsy EmptyText \<and> updateSyncLog 5 ''IDX'' EmptyText (Some empty_log) = (Inr (), Some empty_log)"
  using updateSyncLog_empty_timestamp [of EmptyText 5 "''IDX''" "Some empty_log"] by simp

text \<open>
  Claim C8 fails as stated: before \<^verbatim>\<open>initializeDatabase\<close> has run, the call with a \<^verbatim>\<open>null\<close>
  timestamp raises.
\<close>

theorem uninitialised_set_raises:
  "updateSyncLog 0 ''MEDIA'' Nullish None = (Inl DatabaseNotInitialized, None)"
  by (simp add: updateSyncLog_def)

section \<open>What the page fetcher returns\<close>

text \<open>
  Claim C10, as the code has it. When \<^verbatim>\<open>fetchWithRetry\<close> produced the parsed body \<open>data\<close> (and the
  debug logging does not meet a \<^verbatim>\<open>null\<close> body), \<^verbatim>\<open>fetchODataPage\<close> returns a page whose \<^verbatim>\<open>value\<close>
  is the body's \<^verbatim>\<open>value\<close> member if that is truthy and the empty array otherwise: the empty
  array when the member is missing, and an array whenever the member is an array. \<^verbatim>\<open>next\<close> and
  \<^verbatim>\<open>count\<close> are \<^verbatim>\<open>null\<close> when their members are missing, and a count of \<open>0\<close> is returned as
  \<^verbatim>\<open>null\<close>.
\<close>

theorem fetchODataPage_fields:
  assumes "outcome (fetchWithRetry new_ApiClient (finalUrl enable_orderby rq)
                      (network (finalUrl enable_orderby rq))) = Inr data"
    and "\<not> (debug \<and> data = JNull)"
  shows "\<exists>p. fetchODataPage debug enable_orderby network rq = Inr p
           \<and> page_value p = or_else (field_of data ''value'') (JArr [])
           \<and> (field_of data ''value'' = None \<longrightarrow> page_value p = JArr [])
           \<and> ((\<exists>xs. field_of data ''value'' = Some (JArr xs)) \<longrightarrow> is_array (page_value p))
           \<and> (field_of data ''@odata.nextLink'' = None \<longrightarrow> page_next p = JNull)
           \<and> (field_of data ''@odata.count'' = None \<longrightarrow> page_count p = JNull)
           \<and> (field_of data ''@odata.count'' = Some (JNum 0) \<longrightarrow> page_count p = JNull)"
  using assms by (auto simp: fetchODataPage_def page_of_def Let_def)

text \<open>The theorem for C10 at a body that has a zero count and nothing else, with debug logging on.\<close>

theorem fetchODataPage_fields_witness:
  "fetchODataPage True True counted_network first_page =
     Inr \<lparr>page_value = JArr [], page_next = JNull, page_count = JNull\<rparr>"
proof -
  have run: "outcome (fetchWithRetry new_ApiClient (finalUrl True first_page)
                        (counted_network (finalUrl True first_page))) = Inr counted_body"
    by (simp add: fetchWithRetry_def new_ApiClient_def retry_loop.simps counted_network_def)
  have dbg: "\<not> (True \<and> counted_body = JNull)"
    by (simp add: counted_body_def)
  have "\<exists>p. fetchODataPage True True counted_network first_page = Inr p
          \<and> page_value p = JArr [] \<and> page_next p = JNull \<and> page_count p = JNull"
    using fetchODataPage_fields [where network = counted_network and enable_orderby = True
      and rq = first_page and data = counted_body and debug = True, OF run dbg]
    by (auto simp: counted_body_def)
  then obtain p where "fetchODataPage True True counted_network first_page = Inr p"
    and "page_value p = JArr []" and "page_next p = JNull" and "page_count p = JNull"
    by auto
  then show ?thesis by (cases p) simp
qed

text \<open>
  Claim C10 fails as stated: a body whose \<^verbatim>\<open>value\<close> member is a non-empty string is passed on
  as it is, so the returned \<^verbatim>\<open>value\<close> is not an array.
\<close>

theorem string_value_is_returned:
  "fetchODataPage False True string_network first_page =
     Inr \<lparr>page_value = JStr ''abc'', page_next = JNull, page_count = JNull\<rparr>
   \<and> \<not> is_array (JStr ''abc'')"
  by (simp add: fetchODataPage_def fetchWithRetry_def new_ApiClient_def retry_loop.simps
        string_network_def string_body_def page_of_def)

section \<open>The oldest timestamp of a page\<close>

text \<open>
  The oldest timestamp is chosen by comparing texts: a text with a fraction of a second sorts
  before the text of the same second without one, whatever their instants.
\<close>

lemma older_compares_the_texts:
  "older (Some \<lparr>written = ''2024-01-06T00:00:00Z'', instant = a\<rparr>)
         (Some \<lparr>written = ''2024-01-06T00:00:00.500Z'', instant = b\<rparr>)
     = Some \<lparr>written = ''2024-01-06T00:00:00.500Z'', instant = b\<rparr>"
  by simp

section \<open>One turn of the paging loop\<close>

text \<open>The turn, branch by branch, with the intermediate worlds written out.\<close>

lemma slice_turn_stop:
  "l_skip st + batchSize e > apiLimit \<and> apiLimit \<le> l_skip st \<Longrightarrow>
   slice_turn k e flt f st w = Leave (slice_return flt st True w)"
  by (simp add: slice_turn_def)

lemma slice_turn_throws:
  "\<not> (l_skip st + batchSize e > apiLimit \<and> apiLimit \<le> l_skip st) \<Longrightarrow>
   server e (tick w) flt (l_skip st) = FetchThrows err \<Longrightarrow>
   slice_turn k e flt f st w = Leave (on_catch k flt f err st (w\<lparr>tick := Suc (tick w)\<rparr>))"
  by (auto simp: slice_turn_def)

lemma slice_turn_empty:
  "\<not> (l_skip st + batchSize e > apiLimit \<and> apiLimit \<le> l_skip st) \<Longrightarrow>
   server e (tick w) flt (l_skip st) = Page [] \<Longrightarrow>
   slice_turn k e flt f st w = Leave (slice_return flt st False (w\<lparr>tick := Suc (tick w)\<rparr>))"
  by (auto simp: slice_turn_def)

lemma slice_turn_page:
  assumes "\<not> (l_skip st + batchSize e > apiLimit \<and> apiLimit \<le> l_skip st)"
    and "server e (tick w) flt (l_skip st) = Page val" and "val \<noteq> []"
    and "dedup k val (seen w) [] 0 = (s', u, d)"
    and "st1 = st\<lparr>l_oldest := foldl (\<lambda>oldest r. older oldest (tracked_stamp k r)) (l_oldest st) val\<rparr>"
    and "mapped = map (\<lambda>(i, r). mapper k (clock e (Suc (tick w)) i) r) (enumerate 0 u)"
    and "w2 = w\<lparr>tick := Suc (tick w), seen := s'\<rparr>"
    and "w3 = w2\<lparr>tick := Suc (Suc (tick w)), writes := writes w @ [mapped]\<rparr>"
  shows "slice_turn k e flt f st w =
     (if u \<noteq> [] then
        (case upsertBatch (handle w) (store e (Suc (tick w))) mapped of
           Inl err \<Rightarrow> Leave (on_catch k flt f err st1 w3)
         | Inr c \<Rightarrow>
             page_end e flt
               (st1\<lparr>l_fetched := l_fetched st + length val,
                     l_upserted := l_upserted st + c,
                     l_latest := newer (l_latest st) (findLatestTimestamp k mapped)\<rparr>)
               (length val) w3)
      else page_end e flt st1 (length val) w2)"
  using assms by (auto simp: slice_turn_def Let_def split: sum.splits)

text \<open>Evaluating a slice on a concrete upstream.\<close>

lemmas slice_eval =
  fetchAndUpsertMediaBatchesInternal_def fetchAndUpsertBatchesInternal_def slice_loop.simps
  slice_turn_def page_end_def on_catch_def slice_return_def upsertBatch_def
  findLatestTimestamp_def mapMedia_def mapProperty_def enumerate_eq_zip locals0_def world0_def
  apiLimit_def Let_def sublist_Cons_right jan_def or_stamp_def on_jan_2_def on_jan_6_def

section \<open>The duplicate filter and the store\<close>

lemma dedup_acc:
  "dedup k val s u d = (s', u', d') \<Longrightarrow>
   \<exists>new. u' = u @ new \<and> (\<forall>r\<in>set new. has_key k r) \<and> s' = s @ map (set_key k) new
         \<and> d' + length new = d + length val
         \<and> d + length (filter (\<lambda>r. \<not> has_key k r) val) \<le> d'"
proof (induction val arbitrary: s u d)
  case Nil
  then show ?case by simp
next
  case (Cons r rs)
  show ?case
  proof (cases "has_key k r \<and> set_key k r \<notin> set s")
    case True
    with Cons.prems have "dedup k rs (s @ [set_key k r]) (u @ [r]) d = (s', u', d')"
      by simp
    from Cons.IH [OF this] obtain new where
      "u' = (u @ [r]) @ new" "\<forall>x\<in>set new. has_key k x"
      "s' = (s @ [set_key k r]) @ map (set_key k) new"
      "d' + length new = d + length rs"
      "d + length (filter (\<lambda>r. \<not> has_key k r) rs) \<le> d'"
      by blast
    with True show ?thesis
      by (intro exI [of _ "r # new"]) auto
  next
    case False
    with Cons.prems have "dedup k rs s u (d + 1) = (s', u', d')"
      by auto
    from Cons.IH [OF this] obtain new where
      "u' = u @ new" "\<forall>x\<in>set new. has_key k x"
      "s' = s @ map (set_key k) new"
      "d' + length new = d + 1 + length rs"
      "d + 1 + length (filter (\<lambda>r. \<not> has_key k r) rs) \<le> d'"
      by blast
    then show ?thesis
      by (intro exI [of _ new]) auto
  qed
qed

lemma mapped_keys:
  "map (row_key k) (map (\<lambda>(i, r). mapper k (c i) r) (enumerate n xs)) = map (set_key k) xs"
  by (induction xs arbitrary: n) (cases k; simp add: mapMedia_def mapProperty_def)+

lemma mapped_has_key:
  "\<forall>r\<in>set xs. has_key k r \<Longrightarrow>
   \<forall>m\<in>set (map (\<lambda>(i, r). mapper k (c i) r) (enumerate n xs)). row_has_key k m"
  by (induction xs arbitrary: n) (cases k; simp add: mapMedia_def mapProperty_def)+

lemma grows_refl: "writes w' = writes w \<Longrightarrow> seen w' = seen w \<Longrightarrow> grows k w w'"
  by (simp add: grows_def)

lemma grows_trans: "grows k w w' \<Longrightarrow> grows k w' w'' \<Longrightarrow> grows k w w''"
  unfolding grows_def
  by (elim exE conjE, rule_tac x = "batches @ batchesa" in exI) auto

lemma grows_return: "slice_return flt st hit w = (res, w') \<Longrightarrow> grows k w w'"
  by (auto simp: slice_return_def Let_def intro: grows_refl)

lemma grows_catch: "on_catch k' flt f err st w = (res, w') \<Longrightarrow> grows k w w'"
  by (auto simp: on_catch_def split: if_splits resource.splits
      intro: grows_refl dest: grows_return)

lemma grows_page_end:
  "page_end e flt st n w = Leave (res, w') \<Longrightarrow> grows k w w'"
  "page_end e flt st n w = Again (st', w') \<Longrightarrow> grows k w w'"
  by (auto simp: page_end_def Let_def split: if_splits intro: grows_refl dest: grows_return)

lemma grows_turn:
  assumes "slice_turn k e flt f st w = Leave (res, w') \<or> slice_turn k e flt f st w = Again (st', w')"
  shows "grows k w w'"
proof (cases "l_skip st + batchSize e > apiLimit \<and> apiLimit \<le> l_skip st")
  case True
  with assms show ?thesis
    by (auto simp: slice_turn_stop dest: grows_return)
next
  case go: False
  show ?thesis
  proof (cases "server e (tick w) flt (l_skip st)")
    case (FetchThrows err)
    with go assms have "grows k (w\<lparr>tick := Suc (tick w)\<rparr>) w'"
      by (auto simp: slice_turn_throws dest: grows_catch)
    then show ?thesis by (simp add: grows_def)
  next
    case (Page val)
    show ?thesis
    proof (cases "val = []")
      case True
      with go Page assms have "grows k (w\<lparr>tick := Suc (tick w)\<rparr>) w'"
        by (auto simp: slice_turn_empty dest: grows_return)
      then show ?thesis by (simp add: grows_def)
    next
      case nonempty: False
      obtain s' u d where d: "dedup k val (seen w) [] 0 = (s', u, d)"
        by (cases "dedup k val (seen w) [] 0") auto
      from dedup_acc [OF d] have u: "\<forall>r\<in>set u. has_key k r" and s': "s' = seen w @ map (set_key k) u"
        by auto
      define st1 where "st1 = st\<lparr>l_oldest := foldl (\<lambda>oldest r. older oldest (tracked_stamp k r)) (l_oldest st) val\<rparr>"
      define mapped where "mapped = map (\<lambda>(i, r). mapper k (clock e (Suc (tick w)) i) r) (enumerate 0 u)"
      define w2 where "w2 = w\<lparr>tick := Suc (tick w), seen := s'\<rparr>"
      define w3 where "w3 = w2\<lparr>tick := Suc (Suc (tick w)), writes := writes w @ [mapped]\<rparr>"
      note turn = slice_turn_page [OF go Page nonempty d st1_def mapped_def w2_def w3_def, of f]
      have keys: "map (row_key k) mapped = map (set_key k) u"
        unfolding mapped_def by (rule mapped_keys)
      have keyed: "\<forall>m\<in>set mapped. row_has_key k m"
        unfolding mapped_def using u by (rule mapped_has_key)
      have w3: "grows k w w3"
        unfolding grows_def
        by (rule exI [of _ "[mapped]"]) (simp add: w3_def w2_def s' keys keyed)
      show ?thesis
      proof (cases "u = []")
        case True
        then have "grows k w w2"
          by (simp add: w2_def s' grows_def)
        moreover from True assms have "grows k w2 w'"
          unfolding turn by (auto dest: grows_page_end)
        ultimately show ?thesis by (rule grows_trans)
      next
        case False
        with assms have "grows k w3 w'"
          unfolding turn by (auto split: sum.splits dest: grows_page_end grows_catch)
        with w3 show ?thesis by (rule grows_trans)
      qed
    qed
  qed
qed

lemma grows_loop: "slice_loop k e flt f st w = (res, w') \<Longrightarrow> grows k w w'"
proof (induction k e flt f st w rule: slice_loop.induct)
  case (1 k e flt f st w)
  show ?case
  proof (cases "slice_turn k e flt f st w")
    case (Leave r)
    with "1.prems" have "slice_turn k e flt f st w = Leave (res, w')"
      by (simp add: slice_loop.simps)
    then show ?thesis using grows_turn by blast
  next
    case (Again nxt)
    then have "grows k w (snd nxt)"
      using grows_turn [of k e flt f st w res "snd nxt" "fst nxt"] by simp
    moreover from Again "1.prems" have "slice_loop k e flt f (fst nxt) (snd nxt) = (res, w')"
      by (simp add: slice_loop.simps)
    from "1.IH" [OF Again this] have "grows k (snd nxt) w'" .
    ultimately show ?thesis by (rule grows_trans)
  qed
qed

text \<open>
  Claim C9. The duplicate filter of either executor keeps only records whose key components are
  all present and non-empty: every record in \<^verbatim>\<open>uniqueRecords\<close> has its key, the set gains exactly
  the keys of \<^verbatim>\<open>uniqueRecords\<close>, every other record of the page is counted in
  \<^verbatim>\<open>duplicatesInBatch\<close>, and so each record with a missing or empty key component is counted
  there. Over a whole slice, whatever its outcome, every row handed to \<^verbatim>\<open>upsertBatch\<close> has its
  key columns and the set of seen keys gains exactly the keys of the rows handed over.
\<close>

theorem keyless_records_never_reach_the_store:
  "(dedup k val seenKeys [] 0 = (seenKeys', uniqueRecords, duplicatesInBatch) \<longrightarrow>
      (\<forall>r\<in>set uniqueRecords. has_key k r)
      \<and> seenKeys' = seenKeys @ map (set_key k) uniqueRecords
      \<and> duplicatesInBatch + length uniqueRecords = length val
      \<and> length (filter (\<lambda>r. \<not> has_key k r) val) \<le> duplicatesInBatch)
   \<and> (slice_loop k e flt failOnLimit st w = (res, w') \<longrightarrow>
      (\<exists>batches. writes w' = writes w @ batches
         \<and> (\<forall>b\<in>set batches. \<forall>m\<in>set b. row_has_key k m)
         \<and> seen w' = seen w @ concat (map (map (row_key k)) batches)))"
proof (rule conjI; rule impI)
  assume "dedup k val seenKeys [] 0 = (seenKeys', uniqueRecords, duplicatesInBatch)"
  from dedup_acc [OF this]
  show "(\<forall>r\<in>set uniqueRecords. has_key k r)
      \<and> seenKeys' = seenKeys @ map (set_key k) uniqueRecords
      \<and> duplicatesInBatch + length uniqueRecords = length val
      \<and> length (filter (\<lambda>r. \<not> has_key k r) val) \<le> duplicatesInBatch"
    by auto
next
  assume "slice_loop k e flt failOnLimit st w = (res, w')"
  then have "grows k w w'" by (rule grows_loop)
  then show "\<exists>batches. writes w' = writes w @ batches
         \<and> (\<forall>b\<in>set batches. \<forall>m\<in>set b. row_has_key k m)
         \<and> seen w' = seen w @ concat (map (map (row_key k)) batches)"
    by (simp add: grows_def)
qed

text \<open>
  The theorem for C9 on a first page that holds a record with an empty \<^verbatim>\<open>MediaKey\<close> followed by
  a complete one: only the complete record is seen and written.
\<close>

theorem keyless_records_never_reach_the_store_witness:
  "\<not> has_key Media nameless
   \<and> dedup Media [nameless, photo] [] [] 0 = ([''L1_M1''], [photo], 1)
   \<and> seen (snd (slice_loop Media mixed_env None False locals0 world0)) = [''L1_M1'']
   \<and> writes (snd (slice_loop Media mixed_env None False locals0 world0))
       = [[mapMedia (jan 10) photo]]"
  using keyless_records_never_reach_the_store
    [of Media "[nameless, photo]" "[]" "[''L1_M1'']" "[photo]" 1 mixed_env None False locals0 world0
        "fst (slice_loop Media mixed_env None False locals0 world0)"
        "snd (slice_loop Media mixed_env None False locals0 world0)"]
  by (simp add: slice_eval mixed_env_def mixed_server_def photo_def nameless_def)

section \<open>The cap marker under \<^verbatim>\<open>failOnLimit\<close>\<close>

text \<open>
  Claim C5, as the code has it. When the loop is about to fetch and the fetch throws an error
  that carries the cap marker, with \<^verbatim>\<open>failOnLimit = true\<close>: the listings executor sends no further
  request and throws \<^verbatim>\<open>API limit hit unexpectedly in date chunk\<close> to its caller, which gets no
  result; the media executor sends no further request and returns normally, with the counts
  reached so far and \<^verbatim>\<open>hitLimit = true\<close>.
\<close>

theorem cap_error_under_failOnLimit:
  assumes "\<not> (l_skip st + batchSize e > apiLimit \<and> apiLimit \<le> l_skip st)"
    and "server e (tick w) flt (l_skip st) = FetchThrows err"
    and "cap_exceeded err"
  shows "slice_loop Listings e flt True st w
           = (Inl (ApiLimitHitUnexpectedly flt), w\<lparr>tick := Suc (tick w)\<rparr>)
       \<and> slice_loop Media e flt True st w
           = slice_return flt st True (w\<lparr>tick := Suc (tick w)\<rparr>)
       \<and> fst (slice_return flt st True (w\<lparr>tick := Suc (tick w)\<rparr>))
           = Inr \<lparr>totalFetched = l_fetched st, totalUpserted = l_upserted st,
                  totalUnique = length (seen w), latestTimestamp = l_latest st,
                  oldestTimestamp = l_oldest st, hitLimit = True\<rparr>"
proof -
  from assms(3) have "err \<noteq> ThrownUndefined" by auto
  with assms show ?thesis
    by (simp add: slice_loop.simps slice_turn_throws on_catch_def slice_return_def Let_def)
qed

text \<open>The theorem for C5 at the first page of a listings slice whose upstream answers with the marker.\<close>

theorem cap_error_under_failOnLimit_witness:
  "fetchAndUpsertBatchesInternal capped_env (Some (Range (jan 4) (jan 11))) True world0
     = (Inl (ApiLimitHitUnexpectedly (Some (Range (jan 4) (jan 11)))),
        world0\<lparr>tick := 1\<rparr>)"
proof -
  have go: "\<not> (l_skip locals0 + batchSize capped_env > apiLimit \<and> apiLimit \<le> l_skip locals0)"
    by (simp add: locals0_def capped_env_def apiLimit_def)
  have thrown: "server capped_env (tick world0) (Some (Range (jan 4) (jan 11)))
                  (l_skip locals0) = FetchThrows (Failure ''HTTP 400 - total exceeds 100000'')"
    by (simp add: capped_env_def capped_server_def)
  have cap: "cap_exceeded (Failure ''HTTP 400 - total exceeds 100000'')"
    by (simp add: sublist_Cons_right)
  from cap_error_under_failOnLimit [OF go thrown cap] show ?thesis
    by (simp add: fetchAndUpsertBatchesInternal_def world0_def)
qed

text \<open>
  Claim C5 fails as stated for media: with \<^verbatim>\<open>failOnLimit = true\<close> and the marker on the first
  page, the media executor returns a result, not an error.
\<close>

theorem media_slice_returns_on_cap:
  "fst (fetchAndUpsertMediaBatchesInternal capped_env
          (Some (Range (jan 4) (jan 11))) True world0)
     = Inr \<lparr>totalFetched = 0, totalUpserted = 0, totalUnique = 0, latestTimestamp = None,
            oldestTimestamp = None, hitLimit = True\<rparr>"
  by (simp add: slice_eval capped_env_def capped_server_def)

section \<open>The backward walk of a full media run\<close>

text \<open>Evaluating the walk on a concrete upstream.\<close>

lemmas walk_eval =
  fetchMediaInDateChunks_def chunks_loop.simps chunk_turn_def next_chunk_def walk0_def
  totals0_def add_slice_def add_totals_def fetchMediaDailyInRange_def days_loop.simps
  maxChunks_def daysPerChunk_def day_def hour_ms_def setHours_def jan_def
  photo_def early_photo_def nameless_def

text \<open>
  Claim C1, on the code. The run starts on 2024-01-10 with the floor at 2024-01-01. The walk
  fetches the window from 2024-01-04 to 2024-01-11, computes the next start 2023-12-28, which
  is before the floor, and leaves the loop: the only slice of the run is that first window.
  The window from the floor to 2024-01-04 is never requested, and the record of 2024-01-02,
  which the upstream returns when asked for that window, is not fetched.
\<close>

theorem last_partial_window_is_not_fetched:
  "fst (fetchMediaInDateChunks archive_env world0)
     = Inr \<lparr>run_fetched = 1, run_upserted = 1, run_unique = 1, run_latest = Some (jan 6)\<rparr>
   \<and> map fst (finished (snd (fetchMediaInDateChunks archive_env world0)))
     = [Some (Range (jan 4) (jan 11))]
   \<and> archive_server 0 (Some (Range (jan 1) (jan 4))) 0 = Page [early_photo]"
  by (simp add: slice_eval walk_eval archive_env_def archive_server_def)

text \<open>
  Claim C2, on the code. The week from 2024-01-04 saturates after one record. The run's slices
  fetched 1, 0, ..., 0 records and upserted as many, yet the run returns 2 fetched and 2
  upserted: the saturated week is added once after the slice and once more when it is deferred.
\<close>

theorem saturated_week_is_counted_twice:
  "fst (fetchMediaInDateChunks hot_env world0)
     = Inr \<lparr>run_fetched = 2, run_upserted = 2, run_unique = 1, run_latest = Some (jan 6)\<rparr>
   \<and> map (\<lambda>s. (totalFetched (snd s), totalUpserted (snd s), hitLimit (snd s)))
         (finished (snd (fetchMediaInDateChunks hot_env world0)))
     = [(1, 1, True), (0, 0, False), (0, 0, False), (0, 0, False), (0, 0, False),
        (0, 0, False), (0, 0, False), (0, 0, False)]"
  by (simp add: slice_eval walk_eval hot_env_def hot_server_def)

text \<open>
  Claim C4, on the code. The same run completes with more rows reported upserted than there
  are identities in the set.
\<close>

theorem upserted_exceeds_unique:
  "(case fst (fetchMediaInDateChunks hot_env world0) of
      Inl err \<Rightarrow> False
    | Inr r \<Rightarrow> run_unique r < run_upserted r)"
  by (simp add: slice_eval walk_eval hot_env_def hot_server_def)

section \<open>The consecutive-empty counter\<close>

lemma upsertBatch_throws:
  "upsertBatch supabase reply rows = Inl err \<Longrightarrow>
   err = DatabaseNotInitialized \<or> reply rows = StoreThrows err"
  by (auto simp: upsertBatch_def split: if_splits store_reply.splits)

lemma grows_seen: "grows k w w' \<Longrightarrow> \<exists>xs. seen w' = seen w @ xs"
  by (auto simp: grows_def)

lemma return_fetched:
  "slice_return flt st hit w = (Inr r, w') \<Longrightarrow>
   totalFetched r = l_fetched st \<and> seen w' = seen w"
  by (auto simp: slice_return_def Let_def)

lemma catch_fetched:
  "on_catch k flt f err st w = (Inr r, w') \<Longrightarrow>
   totalFetched r = l_fetched st \<and> seen w' = seen w \<and> cap_exceeded err"
  by (auto simp: on_catch_def split: if_splits resource.splits dest: return_fetched)

lemma page_end_fetched:
  "page_end e flt st n w = Leave (Inr r, w') \<Longrightarrow> totalFetched r = l_fetched st \<and> seen w' = seen w"
  "page_end e flt st n w = Again (st', w') \<Longrightarrow> l_fetched st' = l_fetched st \<and> w' = w"
  by (auto simp: page_end_def Let_def split: if_splits dest: return_fetched)

lemma turn_fetched:
  assumes polite: "polite_store e"
  shows "slice_turn k e flt f st w = Leave (Inr r, w') \<Longrightarrow>
           (totalFetched r = 0) = (l_fetched st = 0 \<and> seen w' = seen w)"
    and "slice_turn k e flt f st w = Again (st', w') \<Longrightarrow>
           (l_fetched st' = 0) = (l_fetched st = 0 \<and> seen w' = seen w)"
proof -
  have both: "(slice_turn k e flt f st w = Leave (Inr r, w') \<longrightarrow>
           (totalFetched r = 0) = (l_fetched st = 0 \<and> seen w' = seen w))
        \<and> (slice_turn k e flt f st w = Again (st', w') \<longrightarrow>
           (l_fetched st' = 0) = (l_fetched st = 0 \<and> seen w' = seen w))"
  proof (cases "l_skip st + batchSize e > apiLimit \<and> apiLimit \<le> l_skip st")
    case True
    then show ?thesis
      by (auto simp: slice_turn_stop dest: return_fetched)
  next
    case go: False
    show ?thesis
    proof (cases "server e (tick w) flt (l_skip st)")
      case (FetchThrows err)
      with go show ?thesis
        by (auto simp: slice_turn_throws dest: catch_fetched)
    next
      case (Page val)
      show ?thesis
      proof (cases "val = []")
        case True
        with go Page show ?thesis
          by (auto simp: slice_turn_empty dest: return_fetched)
      next
        case nonempty: False
        obtain s' u d where d: "dedup k val (seen w) [] 0 = (s', u, d)"
          by (cases "dedup k val (seen w) [] 0") auto
        from dedup_acc [OF d] have s': "s' = seen w @ map (set_key k) u"
          by auto
        define st1 where "st1 = st\<lparr>l_oldest := foldl (\<lambda>oldest r. older oldest (tracked_stamp k r)) (l_oldest st) val\<rparr>"
        define mapped where "mapped = map (\<lambda>(i, r). mapper k (clock e (Suc (tick w)) i) r) (enumerate 0 u)"
        define w2 where "w2 = w\<lparr>tick := Suc (tick w), seen := s'\<rparr>"
        define w3 where "w3 = w2\<lparr>tick := Suc (Suc (tick w)), writes := writes w @ [mapped]\<rparr>"
        note turn = slice_turn_page [OF go Page nonempty d st1_def mapped_def w2_def w3_def, of f]
        show ?thesis
        proof (cases "u = []")
          case True
          then show ?thesis
            unfolding turn by (auto simp: st1_def w2_def s' dest!: page_end_fetched)
        next
          case False
          have "\<not> cap_exceeded err"
            if "upsertBatch (handle w) (store e (Suc (tick w))) mapped = Inl err" for err
            using polite upsertBatch_throws [OF that] by (auto simp: polite_store_def)
          with False nonempty show ?thesis
            unfolding turn
            by (auto simp: st1_def w2_def w3_def s' split: sum.splits
                     dest!: page_end_fetched catch_fetched)
        qed
      qed
    qed
  qed
  from both show "slice_turn k e flt f st w = Leave (Inr r, w') \<Longrightarrow>
           (totalFetched r = 0) = (l_fetched st = 0 \<and> seen w' = seen w)"
    by blast
  from both show "slice_turn k e flt f st w = Again (st', w') \<Longrightarrow>
           (l_fetched st' = 0) = (l_fetched st = 0 \<and> seen w' = seen w)"
    by blast
qed

lemma loop_fetched:
  "polite_store e \<Longrightarrow> slice_loop k e flt f st w = (Inr r, w') \<Longrightarrow>
   (totalFetched r = 0) = (l_fetched st = 0 \<and> seen w' = seen w)"
proof (induction k e flt f st w rule: slice_loop.induct)
  case (1 k e flt f st w)
  show ?case
  proof (cases "slice_turn k e flt f st w")
    case (Leave x)
    with "1.prems" have "slice_turn k e flt f st w = Leave (Inr r, w')"
      by (simp add: slice_loop.simps)
    with "1.prems"(1) show ?thesis by (rule turn_fetched(1))
  next
    case (Again nxt)
    then have again: "slice_turn k e flt f st w = Again (fst nxt, snd nxt)" by simp
    from Again "1.prems" have rest: "slice_loop k e flt f (fst nxt) (snd nxt) = (Inr r, w')"
      by (simp add: slice_loop.simps)
    from "1.IH" [OF Again "1.prems"(1) rest]
    have ih: "(totalFetched r = 0) = (l_fetched (fst nxt) = 0 \<and> seen w' = seen (snd nxt))" .
    from turn_fetched(2) [OF "1.prems"(1) again]
    have step: "(l_fetched (fst nxt) = 0) = (l_fetched st = 0 \<and> seen (snd nxt) = seen w)" .
    from grows_turn [of k e flt f st w undefined "snd nxt" "fst nxt"] again
    obtain xs where xs: "seen (snd nxt) = seen w @ xs"
      by (auto dest: grows_seen)
    from grows_loop [OF rest] obtain ys where ys: "seen w' = seen (snd nxt) @ ys"
      by (auto dest: grows_seen)
    from ih step xs ys show ?thesis by auto
  qed
qed

lemma next_chunk_cases:
  "\<exists>st'. (next_chunk target st w = Leave (Inr st', w) \<or> next_chunk target st w = Again (st', w))
         \<and> emptyChunks st' = emptyChunks st"
  by (auto simp: next_chunk_def Let_def)

lemma chunk_turn_counter:
  assumes "fetchAndUpsertMediaBatchesInternal e (Some (Range (startDate st) (endDate st))) False w
             = (Inr result, w')"
  shows "\<exists>st'. (chunk_turn e target st w = Leave (Inr st', w')
                \<or> chunk_turn e target st w = Again (st', w'))
           \<and> emptyChunks st' = (if totalFetched result = 0 then emptyChunks st + 1 else 0)
           \<and> (emptyChunks st' \<ge> 10 \<longrightarrow> chunk_turn e target st w = Leave (Inr st', w'))"
proof (cases "totalFetched result = 0")
  case True
  show ?thesis
  proof (cases "emptyChunks st + 1 \<ge> 10")
    case True
    with \<open>totalFetched result = 0\<close> assms show ?thesis
      by (simp add: chunk_turn_def Let_def)
  next
    case False
    define st3 where "st3 = st\<lparr>chunkCount := chunkCount st + 1, sums := add_slice (sums st) result,
                               emptyChunks := emptyChunks st + 1\<rparr>"
    from False \<open>totalFetched result = 0\<close> assms
    have turn: "chunk_turn e target st w = next_chunk target st3 w'"
      by (simp add: chunk_turn_def Let_def st3_def)
    from next_chunk_cases [of target st3 w'] obtain st' where
      "next_chunk target st3 w' = Leave (Inr st', w') \<or> next_chunk target st3 w' = Again (st', w')"
      "emptyChunks st' = emptyChunks st3"
      by blast
    with False \<open>totalFetched result = 0\<close> show ?thesis
      unfolding turn by (intro exI [of _ st']) (auto simp: st3_def)
  qed
next
  case False
  define st4 where "st4 =
     (if hitLimit result
      then st\<lparr>chunkCount := chunkCount st + 1, sums := add_slice (sums st) result, emptyChunks := 0,
              skippedWeeks := skippedWeeks st @ [(startDate st, endDate st, totalFetched result)],
              sums := add_slice (add_slice (sums st) result) result\<rparr>
      else st\<lparr>chunkCount := chunkCount st + 1, sums := add_slice (sums st) result, emptyChunks := 0\<rparr>)"
  from False assms have turn: "chunk_turn e target st w = next_chunk target st4 w'"
    by (simp add: chunk_turn_def Let_def st4_def)
  from next_chunk_cases [of target st4 w'] obtain st' where
    "next_chunk target st4 w' = Leave (Inr st', w') \<or> next_chunk target st4 w' = Again (st', w')"
    "emptyChunks st' = emptyChunks st4"
    by blast
  with False show ?thesis
    unfolding turn by (intro exI [of _ st']) (auto simp: st4_def)
qed

lemma chunk_turn_bound:
  assumes "emptyChunks st < 10"
  shows "chunk_turn e target st w = Leave (Inr st', w') \<Longrightarrow> emptyChunks st' \<le> 10"
    and "chunk_turn e target st w = Again (st', w') \<Longrightarrow> emptyChunks st' < 10"
proof -
  obtain res w1 where run: "fetchAndUpsertMediaBatchesInternal e
      (Some (Range (startDate st) (endDate st))) False w = (res, w1)"
    by (cases "fetchAndUpsertMediaBatchesInternal e (Some (Range (startDate st) (endDate st))) False w")
  show "chunk_turn e target st w = Leave (Inr st', w') \<Longrightarrow> emptyChunks st' \<le> 10"
  proof (cases res)
    case (Inl err)
    with run show "chunk_turn e target st w = Leave (Inr st', w') \<Longrightarrow> emptyChunks st' \<le> 10"
      by (simp add: chunk_turn_def Let_def)
  next
    case (Inr result)
    assume leave: "chunk_turn e target st w = Leave (Inr st', w')"
    from chunk_turn_counter [of e st w result w1 target] run Inr obtain st'' where
      t: "chunk_turn e target st w = Leave (Inr st'', w1) \<or> chunk_turn e target st w = Again (st'', w1)"
      and c: "emptyChunks st'' = (if totalFetched result = 0 then emptyChunks st + 1 else 0)"
      by auto
    from t leave have "st'' = st'" by auto
    with c assms show "emptyChunks st' \<le> 10" by (auto split: if_splits)
  qed
  show "chunk_turn e target st w = Again (st', w') \<Longrightarrow> emptyChunks st' < 10"
  proof (cases res)
    case (Inl err)
    with run show "chunk_turn e target st w = Again (st', w') \<Longrightarrow> emptyChunks st' < 10"
      by (simp add: chunk_turn_def Let_def)
  next
    case (Inr result)
    assume again: "chunk_turn e target st w = Again (st', w')"
    from chunk_turn_counter [of e st w result w1 target] run Inr obtain st'' where
      t: "chunk_turn e target st w = Leave (Inr st'', w1) \<or> chunk_turn e target st w = Again (st'', w1)"
      and c: "emptyChunks st'' = (if totalFetched result = 0 then emptyChunks st + 1 else 0)"
      and l: "emptyChunks st'' \<ge> 10 \<longrightarrow> chunk_turn e target st w = Leave (Inr st'', w1)"
      by auto
    from t again have "st'' = st'" by auto
    with l again show "emptyChunks st' < 10" by (cases "emptyChunks st' < 10") auto
  qed
qed

lemma chunks_loop_bound:
  "emptyChunks st < 10 \<Longrightarrow> chunks_loop e target st w = (Inr st', w') \<Longrightarrow> emptyChunks st' \<le> 10"
proof (induction e target st w rule: chunks_loop.induct)
  case (1 e target st w)
  show ?case
  proof (cases "chunkCount st < maxChunks")
    case False
    with "1.prems" show ?thesis by (simp add: chunks_loop.simps)
  next
    case less: True
    show ?thesis
    proof (cases "chunk_turn e target st w")
      case (Leave x)
      with less "1.prems" have "chunk_turn e target st w = Leave (Inr st', w')"
        by (simp add: chunks_loop.simps)
      with "1.prems"(1) show ?thesis by (rule chunk_turn_bound(1))
    next
      case (Again nxt)
      then have "chunk_turn e target st w = Again (fst nxt, snd nxt)" by simp
      with "1.prems"(1) have small: "emptyChunks (fst nxt) < 10" by (rule chunk_turn_bound(2))
      from less Again "1.prems" have "chunks_loop e target (fst nxt) (snd nxt) = (Inr st', w')"
        by (simp add: chunks_loop.simps)
      from "1.IH" [OF less Again small this] show ?thesis .
    qed
  qed
qed

text \<open>
  Claim C6, as the code has it. \<^verbatim>\<open>totalFetched\<close> of a slice counts the records of those pages only
  that held at least one new record with its key, so (for a store whose errors do not carry
  the cap marker) it is zero exactly when the slice added no identity to the set, however many
  records the upstream returned. In every turn of the walk whose slice returns, the counter
  becomes one more when \<^verbatim>\<open>totalFetched\<close> is zero and zero otherwise, and the turn leaves the loop
  when the counter has reached 10; so a walk started below 10 never ends above 10.
\<close>

theorem empty_counter_follows_new_identities:
  "(polite_store e
      \<and> fetchAndUpsertMediaBatchesInternal e (Some (Range (startDate st) (endDate st))) False w
          = (Inr result, w')
    \<longrightarrow> (totalFetched result = 0 \<longleftrightarrow> seen w' = seen w)
      \<and> (\<exists>st'. (chunk_turn e target st w = Leave (Inr st', w')
                  \<or> chunk_turn e target st w = Again (st', w'))
             \<and> emptyChunks st' = (if totalFetched result = 0 then emptyChunks st + 1 else 0)
             \<and> (emptyChunks st' \<ge> 10 \<longrightarrow> chunk_turn e target st w = Leave (Inr st', w'))))
   \<and> (emptyChunks st < 10 \<and> chunks_loop e target st w = (Inr final, w'')
    \<longrightarrow> emptyChunks final \<le> 10)"
proof (rule conjI; rule impI)
  assume a: "polite_store e
      \<and> fetchAndUpsertMediaBatchesInternal e (Some (Range (startDate st) (endDate st))) False w
          = (Inr result, w')"
  then have "slice_loop Media e (Some (Range (startDate st) (endDate st))) False locals0 w
               = (Inr result, w')"
    by (simp add: fetchAndUpsertMediaBatchesInternal_def)
  with a have "(totalFetched result = 0) = (l_fetched locals0 = 0 \<and> seen w' = seen w)"
    by (intro loop_fetched) auto
  then have "totalFetched result = 0 \<longleftrightarrow> seen w' = seen w"
    by (simp add: locals0_def)
  moreover from a have "\<exists>st'. (chunk_turn e target st w = Leave (Inr st', w')
                  \<or> chunk_turn e target st w = Again (st', w'))
             \<and> emptyChunks st' = (if totalFetched result = 0 then emptyChunks st + 1 else 0)
             \<and> (emptyChunks st' \<ge> 10 \<longrightarrow> chunk_turn e target st w = Leave (Inr st', w'))"
    by (intro chunk_turn_counter) auto
  ultimately show "(totalFetched result = 0 \<longleftrightarrow> seen w' = seen w)
      \<and> (\<exists>st'. (chunk_turn e target st w = Leave (Inr st', w')
                  \<or> chunk_turn e target st w = Again (st', w'))
             \<and> emptyChunks st' = (if totalFetched result = 0 then emptyChunks st + 1 else 0)
             \<and> (emptyChunks st' \<ge> 10 \<longrightarrow> chunk_turn e target st w = Leave (Inr st', w')))"
    by blast
next
  assume "emptyChunks st < 10 \<and> chunks_loop e target st w = (Inr final, w'')"
  then show "emptyChunks final \<le> 10"
    using chunks_loop_bound by blast
qed

text \<open>
  The theorem for C6 at the first window of a walk over an upstream whose only record has no
  \<^verbatim>\<open>MediaKey\<close>.
\<close>

theorem empty_counter_follows_new_identities_witness:
  "polite_store keyless_env
   \<and> fetchAndUpsertMediaBatchesInternal keyless_env
         (Some (Range (startDate (walk0 (jan 10))) (endDate (walk0 (jan 10))))) False world0
       = (Inr \<lparr>totalFetched = 0, totalUpserted = 0, totalUnique = 0, latestTimestamp = None,
               oldestTimestamp = Some on_jan_6, hitLimit = False\<rparr>,
          \<lparr>tick = 1, seen = [], handle = Some empty_log, writes = [],
           finished = [(Some (Range (jan 4) (jan 11)),
                        \<lparr>totalFetched = 0, totalUpserted = 0, totalUnique = 0,
                         latestTimestamp = None, oldestTimestamp = Some on_jan_6,
                         hitLimit = False\<rparr>)]\<rparr>)
   \<and> (\<exists>st'. chunk_turn keyless_env (jan 1) (walk0 (jan 10)) world0
               = Leave (Inr st', \<lparr>tick = 1, seen = [], handle = Some empty_log, writes = [],
                   finished = [(Some (Range (jan 4) (jan 11)),
                        \<lparr>totalFetched = 0, totalUpserted = 0, totalUnique = 0,
                         latestTimestamp = None, oldestTimestamp = Some on_jan_6,
                         hitLimit = False\<rparr>)]\<rparr>)
            \<and> emptyChunks st' = 1)"
proof -
  have polite: "polite_store keyless_env"
    by (simp add: polite_store_def keyless_env_def)
  have run: "fetchAndUpsertMediaBatchesInternal keyless_env
         (Some (Range (startDate (walk0 (jan 10))) (endDate (walk0 (jan 10))))) False world0
       = (Inr \<lparr>totalFetched = 0, totalUpserted = 0, totalUnique = 0, latestTimestamp = None,
               oldestTimestamp = Some on_jan_6, hitLimit = False\<rparr>,
          \<lparr>tick = 1, seen = [], handle = Some empty_log, writes = [],
           finished = [(Some (Range (jan 4) (jan 11)),
                        \<lparr>totalFetched = 0, totalUpserted = 0, totalUnique = 0,
                         latestTimestamp = None, oldestTimestamp = Some on_jan_6,
                         hitLimit = False\<rparr>)]\<rparr>)"
    by (simp add: slice_eval walk_eval keyless_env_def keyless_server_def)
  have turn: "chunk_turn keyless_env (jan 1) (walk0 (jan 10)) world0 \<noteq> Again nxt" for nxt
    by (simp add: run chunk_turn_def next_chunk_def Let_def)
       (simp add: walk_eval)
  let ?r = "\<lparr>totalFetched = 0, totalUpserted = 0, totalUnique = 0, latestTimestamp = None,
               oldestTimestamp = Some on_jan_6, hitLimit = False\<rparr>"
  let ?w = "\<lparr>tick = 1, seen = [], handle = Some empty_log, writes = [],
             finished = [(Some (Range (jan 4) (jan 11)), ?r)]\<rparr>"
  have start: "emptyChunks (walk0 (jan 10)) = 0"
    by (simp add: walk0_def)
  from empty_counter_follows_new_identities
    [of keyless_env "walk0 (jan 10)" world0 ?r ?w "jan 1" undefined undefined]
    polite run
  obtain st' where
    "chunk_turn keyless_env (jan 1) (walk0 (jan 10)) world0 = Leave (Inr st', ?w)
     \<or> chunk_turn keyless_env (jan 1) (walk0 (jan 10)) world0 = Again (st', ?w)"
    "emptyChunks st' = 1"
    by (auto simp: start)
  with turn polite run show ?thesis by auto
qed

text \<open>
  Claim C6 fails as stated: the upstream answers the window from 2024-01-04 with one record,
  the slice's \<^verbatim>\<open>totalFetched\<close> is zero because that record has no key, and the counter goes to 1
  instead of being reset.
\<close>

theorem keyless_page_counts_as_empty:
  "server keyless_env 0 (Some (Range (jan 4) (jan 11))) 0 = Page [nameless]
   \<and> fst (chunks_loop keyless_env (jan 1) (walk0 (jan 10)) world0)
     = Inr \<lparr>chunkCount = 1, emptyChunks = 1, startDate = jan (-3), endDate = jan 4,
            sums = totals0, skippedWeeks = []\<rparr>"
  by (simp add: slice_eval walk_eval keyless_env_def keyless_server_def)

section \<open>The checkpoint a run writes\<close>

text \<open>
  The latest timestamp a slice, a walk and a run return is read off a row that was handed to
  \<^verbatim>\<open>upsertBatch\<close> on the way, and the module variable \<^verbatim>\<open>supabase\<close> is left alone.
\<close>

lemma recorded_same:
  "recorded k w0 w x \<Longrightarrow> writes w' = writes w \<Longrightarrow> handle w' = handle w \<Longrightarrow> recorded k w0 w' x"
  by (simp add: recorded_def)

lemma recorded_trans:
  assumes "recorded k w0 w x" and "recorded k w w' y" and "z = None \<or> z = x \<or> z = y"
  shows "recorded k w0 w' z"
proof -
  from assms(1) obtain bs where bs: "writes w = writes w0 @ bs"
    "\<forall>t. x = Some t \<longrightarrow> (\<exists>m\<in>set (concat bs). checkpoint_stamp k m = Some t)"
    and h: "handle w = handle w0"
    by (auto simp: recorded_def)
  from assms(2) obtain cs where cs: "writes w' = writes w @ cs"
    "\<forall>t. y = Some t \<longrightarrow> (\<exists>m\<in>set (concat cs). checkpoint_stamp k m = Some t)"
    and h': "handle w' = handle w"
    by (auto simp: recorded_def)
  have "\<forall>t. z = Some t \<longrightarrow>
          (\<exists>m\<in>set (concat bs) \<union> set (concat cs). checkpoint_stamp k m = Some t)"
    using assms(3) bs(2) cs(2) by blast
  then have "\<forall>t. z = Some t \<longrightarrow> (\<exists>m\<in>set (concat (bs @ cs)). checkpoint_stamp k m = Some t)"
    by simp
  moreover have "writes w' = writes w0 @ (bs @ cs)"
    using bs(1) cs(1) by simp
  ultimately have "writes w' = writes w0 @ (bs @ cs)
      \<and> (\<forall>t. z = Some t \<longrightarrow> (\<exists>m\<in>set (concat (bs @ cs)). checkpoint_stamp k m = Some t))"
    by (rule conjI [rotated])
  then have "\<exists>batches. writes w' = writes w0 @ batches
      \<and> (\<forall>t. z = Some t \<longrightarrow> (\<exists>m\<in>set (concat batches). checkpoint_stamp k m = Some t))"
    by (rule exI)
  with h h' show ?thesis
    unfolding recorded_def by simp
qed

lemma newer_cases: "newer a b = a \<or> newer a b = b"
  by (cases a; cases b) auto

lemma newer_twice: "newer (newer a b) b = newer a b"
  by (cases a; cases b) auto

lemma recorded_newer:
  "recorded k w0 w x \<Longrightarrow> recorded k w w' y \<Longrightarrow> recorded k w0 w' (newer x y)"
  using newer_cases [of x y] by (auto intro: recorded_trans)

lemma recorded_keep:
  "recorded k w0 w x \<Longrightarrow> recorded k w w' y \<Longrightarrow> recorded k w0 w' x"
  by (rule recorded_trans) auto

lemma recorded_drop:
  "recorded k w0 w x \<Longrightarrow> recorded k w w' y \<Longrightarrow> recorded k w0 w' None"
  by (rule recorded_trans) auto

lemma recorded_start: "recorded k w w None"
  by (simp add: recorded_def)

lemma foldl_newer_mem:
  "foldl (\<lambda>latest m. newer latest (first_truthy (timestampFields k m))) a rows = Some t \<Longrightarrow>
   a = Some t \<or> (\<exists>m\<in>set rows. checkpoint_stamp k m = Some t)"
proof (induction rows arbitrary: a)
  case Nil
  then show ?case by simp
next
  case (Cons m rows)
  from Cons.prems
  have "foldl (\<lambda>latest m. newer latest (first_truthy (timestampFields k m)))
          (newer a (first_truthy (timestampFields k m))) rows = Some t"
    by simp
  from Cons.IH [OF this] newer_cases [of a "first_truthy (timestampFields k m)"]
  show ?case by (auto simp: checkpoint_stamp_def)
qed

lemma findLatest_mem:
  "findLatestTimestamp k rows = Some t \<Longrightarrow> \<exists>m\<in>set rows. checkpoint_stamp k m = Some t"
  by (auto simp: findLatestTimestamp_def split: if_splits dest: foldl_newer_mem)

lemma return_recorded:
  "recorded k w0 w (l_latest st) \<Longrightarrow> slice_return flt st hit w = (res, w') \<Longrightarrow>
   recorded k w0 w' (shown latestTimestamp res)"
  by (auto simp: slice_return_def Let_def recorded_def)

lemma catch_recorded:
  "recorded k w0 w (l_latest st) \<Longrightarrow> on_catch k' flt f err st w = (res, w') \<Longrightarrow>
   recorded k w0 w' (shown latestTimestamp res)"
  by (auto simp: on_catch_def split: if_splits resource.splits
      dest: return_recorded recorded_drop [OF _ recorded_start])

lemma page_end_recorded:
  assumes "recorded k w0 w (l_latest st)"
  shows "page_end e flt st n w = Leave (res, w') \<Longrightarrow> recorded k w0 w' (shown latestTimestamp res)"
    and "page_end e flt st n w = Again (st', w') \<Longrightarrow> recorded k w0 w' (l_latest st')"
  using assms
  by (auto simp: page_end_def Let_def split: if_splits
      dest: return_recorded [where st = "st\<lparr>l_skip := l_skip st + n\<rparr>", simplified]
            return_recorded [where st = st])

lemma turn_recorded:
  assumes inv: "recorded k w0 w (l_latest st)"
  shows "(slice_turn k e flt f st w = Leave (res, w') \<longrightarrow> recorded k w0 w' (shown latestTimestamp res))
       \<and> (slice_turn k e flt f st w = Again (st', w') \<longrightarrow> recorded k w0 w' (l_latest st'))"
proof (cases "l_skip st + batchSize e > apiLimit \<and> apiLimit \<le> l_skip st")
  case True
  with inv show ?thesis
    by (auto simp: slice_turn_stop dest: return_recorded)
next
  case go: False
  from inv have inv1: "recorded k w0 (w\<lparr>tick := Suc (tick w)\<rparr>) (l_latest st)"
    by (rule recorded_same) simp_all
  show ?thesis
  proof (cases "server e (tick w) flt (l_skip st)")
    case (FetchThrows err)
    with go inv1 show ?thesis
      by (auto simp: slice_turn_throws dest: catch_recorded)
  next
    case (Page val)
    show ?thesis
    proof (cases "val = []")
      case True
      with go Page inv1 show ?thesis
        by (auto simp: slice_turn_empty dest: return_recorded)
    next
      case nonempty: False
      obtain s' u d where d: "dedup k val (seen w) [] 0 = (s', u, d)"
        by (cases "dedup k val (seen w) [] 0") auto
      define st1 where "st1 = st\<lparr>l_oldest := foldl (\<lambda>oldest r. older oldest (tracked_stamp k r)) (l_oldest st) val\<rparr>"
      define mapped where "mapped = map (\<lambda>(i, r). mapper k (clock e (Suc (tick w)) i) r) (enumerate 0 u)"
      define w2 where "w2 = w\<lparr>tick := Suc (tick w), seen := s'\<rparr>"
      define w3 where "w3 = w2\<lparr>tick := Suc (Suc (tick w)), writes := writes w @ [mapped]\<rparr>"
      note turn = slice_turn_page [OF go Page nonempty d st1_def mapped_def w2_def w3_def, of f]
      from inv have "recorded k w0 w2 (l_latest st)"
        by (rule recorded_same) (simp_all add: w2_def)
      then have at2: "recorded k w0 w2 (l_latest st1)"
        by (simp add: st1_def)
      have step: "recorded k w w3 (findLatestTimestamp k mapped)"
        unfolding recorded_def
        by (auto simp: w3_def w2_def dest: findLatest_mem)
      from inv step have keep: "recorded k w0 w3 (l_latest st1)"
        unfolding st1_def by (simp add: recorded_keep)
      from inv step
      have new: "recorded k w0 w3 (newer (l_latest st) (findLatestTimestamp k mapped))"
        by (rule recorded_newer)
      define st2 where "st2 c = st1\<lparr>l_fetched := l_fetched st + length val,
                     l_upserted := l_upserted st + c,
                     l_latest := newer (l_latest st) (findLatestTimestamp k mapped)\<rparr>" for c
      from new have new': "recorded k w0 w3 (l_latest (st2 c))" for c
        by (simp add: st2_def)
      show ?thesis
        unfolding turn st2_def [symmetric]
        using at2 keep new'
        by (auto split: sum.splits if_splits dest: page_end_recorded catch_recorded)
    qed
  qed
qed

lemma loop_recorded:
  "recorded k w0 w (l_latest st) \<Longrightarrow> slice_loop k e flt f st w = (res, w') \<Longrightarrow>
   recorded k w0 w' (shown latestTimestamp res)"
proof (induction k e flt f st w rule: slice_loop.induct)
  case (1 k e flt f st w)
  show ?case
  proof (cases "slice_turn k e flt f st w")
    case (Leave x)
    with "1.prems" have "slice_turn k e flt f st w = Leave (res, w')"
      by (simp add: slice_loop.simps)
    with turn_recorded [OF "1.prems"(1), where e = e and flt = flt and f = f
        and res = res and w' = w']
    show ?thesis by blast
  next
    case (Again nxt)
    then have "slice_turn k e flt f st w = Again (fst nxt, snd nxt)" by simp
    with turn_recorded [OF "1.prems"(1), where e = e and flt = flt and f = f
        and st' = "fst nxt" and w' = "snd nxt"]
    have inv: "recorded k w0 (snd nxt) (l_latest (fst nxt))" by blast
    from Again "1.prems" have "slice_loop k e flt f (fst nxt) (snd nxt) = (res, w')"
      by (simp add: slice_loop.simps)
    from "1.IH" [OF Again inv this] show ?thesis .
  qed
qed

lemma slice_recorded:
  "fetchAndUpsertMediaBatchesInternal e flt f w = (res, w') \<Longrightarrow>
   recorded Media w w' (shown latestTimestamp res)"
  "fetchAndUpsertBatchesInternal e flt f w = (res, w') \<Longrightarrow>
   recorded Listings w w' (shown latestTimestamp res)"
proof -
  have start: "recorded k w w (l_latest locals0)" for k
    by (simp add: locals0_def recorded_start)
  show "fetchAndUpsertMediaBatchesInternal e flt f w = (res, w') \<Longrightarrow>
   recorded Media w w' (shown latestTimestamp res)"
    unfolding fetchAndUpsertMediaBatchesInternal_def using start by (rule loop_recorded)
  show "fetchAndUpsertBatchesInternal e flt f w = (res, w') \<Longrightarrow>
   recorded Listings w w' (shown latestTimestamp res)"
    unfolding fetchAndUpsertBatchesInternal_def using start by (rule loop_recorded)
qed

lemma add_slice_recorded:
  "recorded k w0 w (sum_latest acc) \<Longrightarrow> recorded k w w' (latestTimestamp r) \<Longrightarrow>
   recorded k w0 w' (sum_latest (add_slice acc r))"
  by (simp add: add_slice_def recorded_newer)

lemma add_totals_recorded:
  "recorded k w0 w (sum_latest acc) \<Longrightarrow> recorded k w w' (sum_latest r) \<Longrightarrow>
   recorded k w0 w' (sum_latest (add_totals acc r))"
  by (simp add: add_totals_def recorded_newer)

lemma hours_loop_recorded:
  "recorded Media w0 w (sum_latest acc) \<Longrightarrow> hours_loop e dayStart hs acc w = (res, w') \<Longrightarrow>
   recorded Media w0 w' (shown sum_latest res)"
proof (induction hs arbitrary: acc w)
  case Nil
  then show ?case by auto
next
  case (Cons h hs)
  obtain res1 w1 where run: "fetchAndUpsertMediaBatchesInternal e
      (Some (Range (setHours dayStart (int h)) (setHours dayStart (int h + 1)))) False w = (res1, w1)"
    by (cases "fetchAndUpsertMediaBatchesInternal e
      (Some (Range (setHours dayStart (int h)) (setHours dayStart (int h + 1)))) False w")
  note slice = slice_recorded(1) [OF run]
  show ?case
  proof (cases res1)
    case (Inl err)
    with run Cons.prems(2) have "res = Inl err" "w' = w1" by auto
    with Cons.prems(1) slice show ?thesis
      by (auto dest: recorded_drop)
  next
    case (Inr hourResult)
    with slice have "recorded Media w w1 (latestTimestamp hourResult)" by simp
    with Cons.prems(1) have "recorded Media w0 w1 (sum_latest (add_slice acc hourResult))"
      by (rule add_slice_recorded)
    moreover from run Inr Cons.prems(2)
    have "hours_loop e dayStart hs (add_slice acc hourResult) w1 = (res, w')"
      by simp
    ultimately show ?thesis by (rule Cons.IH)
  qed
qed

lemma days_loop_recorded:
  "recorded Media w0 w (sum_latest acc) \<Longrightarrow>
   days_loop e currentDate rangeEnd acc w = (res, w') \<Longrightarrow>
   recorded Media w0 w' (shown sum_latest res)"
proof (induction e currentDate rangeEnd acc w rule: days_loop.induct)
  case (1 e currentDate rangeEnd acc w)
  show ?case
  proof (cases "currentDate < rangeEnd")
    case False
    with "1.prems" show ?thesis by (auto simp: days_loop.simps)
  next
    case less: True
    obtain res1 w1 where run: "fetchAndUpsertMediaBatchesInternal e
        (Some (Range currentDate (currentDate + day))) False w = (res1, w1)"
      by (cases "fetchAndUpsertMediaBatchesInternal e
        (Some (Range currentDate (currentDate + day))) False w")
    note slice = slice_recorded(1) [OF run]
    show ?thesis
    proof (cases res1)
      case (Inl err)
      with less run "1.prems"(2) have "res = Inl err" "w' = w1"
        by (auto simp: days_loop.simps)
      with "1.prems"(1) slice show ?thesis
        by (auto dest: recorded_drop)
    next
      case (Inr result)
      show ?thesis
      proof (cases "hitLimit result")
        case hit: True
        from "1.prems"(1) slice have inv1: "recorded Media w0 w1 (sum_latest acc)"
          by (rule recorded_keep)
        obtain hres w2 where hours: "hours_loop e currentDate [0..<24] acc w1 = (hres, w2)"
          by (cases "hours_loop e currentDate [0..<24] acc w1")
        note hrs = hours_loop_recorded [OF inv1 hours]
        show ?thesis
        proof (cases hres)
          case (Inl err)
          with less run \<open>res1 = Inr result\<close> hit hours "1.prems"(2)
          have "res = Inl err" "w' = w2"
            by (auto simp: days_loop.simps)
          with hrs Inl show ?thesis by simp
        next
          case hr: (Inr acc')
          with hrs have inv: "recorded Media w0 w2 (sum_latest acc')" by simp
          from less run \<open>res1 = Inr result\<close> hit hours hr "1.prems"(2)
          have "days_loop e (currentDate + day) rangeEnd acc' w2 = (res, w')"
            by (simp add: days_loop.simps)
          from "1.IH"(1) [OF less run [symmetric] \<open>res1 = Inr result\<close> hit hours [symmetric] hr
              inv this]
          show ?thesis .
        qed
      next
        case nohit: False
        from slice Inr have "recorded Media w w1 (latestTimestamp result)" by simp
        with "1.prems"(1) have inv: "recorded Media w0 w1 (sum_latest (add_slice acc result))"
          by (rule add_slice_recorded)
        from less run Inr nohit "1.prems"(2)
        have "days_loop e (currentDate + day) rangeEnd (add_slice acc result) w1 = (res, w')"
          by (simp add: days_loop.simps)
        from "1.IH"(2) [OF less run [symmetric] Inr nohit inv this]
        show ?thesis .
      qed
    qed
  qed
qed

lemma daily_recorded:
  "fetchMediaDailyInRange e a b w = (res, w') \<Longrightarrow> recorded Media w w' (shown sum_latest res)"
  unfolding fetchMediaDailyInRange_def
proof (rule days_loop_recorded)
  show "recorded Media w w (sum_latest totals0)"
    by (simp add: totals0_def recorded_start)
qed

lemma next_chunk_same:
  "next_chunk target st w = Leave (res, w') \<Longrightarrow>
     w' = w \<and> shown (\<lambda>s. sum_latest (sums s)) res = sum_latest (sums st)"
  "next_chunk target st w = Again (st', w') \<Longrightarrow> w' = w \<and> sums st' = sums st"
  by (auto simp: next_chunk_def Let_def split: if_splits)

lemma chunk_turn_recorded:
  assumes inv: "recorded Media w0 w (sum_latest (sums st))"
  shows "(chunk_turn e target st w = Leave (res, w')
            \<longrightarrow> recorded Media w0 w' (shown (\<lambda>s. sum_latest (sums s)) res))
       \<and> (chunk_turn e target st w = Again (st', w')
            \<longrightarrow> recorded Media w0 w' (sum_latest (sums st')))"
proof -
  obtain res1 w1 where run: "fetchAndUpsertMediaBatchesInternal e
      (Some (Range (startDate st) (endDate st))) False w = (res1, w1)"
    by (cases "fetchAndUpsertMediaBatchesInternal e (Some (Range (startDate st) (endDate st))) False w")
  note slice = slice_recorded(1) [OF run]
  show ?thesis
  proof (cases res1)
    case (Inl err)
    from inv slice have "recorded Media w0 w1 None"
      by (rule recorded_drop)
    with run Inl show ?thesis by (auto simp: chunk_turn_def Let_def)
  next
    case (Inr result)
    with slice have "recorded Media w w1 (latestTimestamp result)" by simp
    with inv have one: "recorded Media w0 w1 (sum_latest (add_slice (sums st) result))"
      by (rule add_slice_recorded)
    have "sum_latest (add_slice (add_slice (sums st) result) result)
            = sum_latest (add_slice (sums st) result)"
      by (simp add: add_slice_def newer_twice)
    with one have two: "recorded Media w0 w1 (sum_latest (add_slice (add_slice (sums st) result) result))"
      by simp
    from run Inr one two show ?thesis
      by (auto simp: chunk_turn_def Let_def split: if_splits dest!: next_chunk_same)
  qed
qed

lemma chunks_loop_recorded:
  "recorded Media w0 w (sum_latest (sums st)) \<Longrightarrow> chunks_loop e target st w = (res, w') \<Longrightarrow>
   recorded Media w0 w' (shown (\<lambda>s. sum_latest (sums s)) res)"
proof (induction e target st w rule: chunks_loop.induct)
  case (1 e target st w)
  show ?case
  proof (cases "chunkCount st < maxChunks")
    case False
    with "1.prems" show ?thesis by (auto simp: chunks_loop.simps)
  next
    case less: True
    show ?thesis
    proof (cases "chunk_turn e target st w")
      case (Leave x)
      with less "1.prems" have "chunk_turn e target st w = Leave (res, w')"
        by (simp add: chunks_loop.simps)
      with chunk_turn_recorded [OF "1.prems"(1), where e = e and target = target
          and res = res and w' = w']
      show ?thesis by blast
    next
      case (Again nxt)
      then have "chunk_turn e target st w = Again (fst nxt, snd nxt)" by simp
      with chunk_turn_recorded [OF "1.prems"(1), where e = e and target = target
          and st' = "fst nxt" and w' = "snd nxt"]
      have inv: "recorded Media w0 (snd nxt) (sum_latest (sums (fst nxt)))" by blast
      from less Again "1.prems" have "chunks_loop e target (fst nxt) (snd nxt) = (res, w')"
        by (simp add: chunks_loop.simps)
      from "1.IH" [OF less Again inv this] show ?thesis .
    qed
  qed
qed

lemma skipped_loop_recorded:
  "recorded Media w0 w (sum_latest acc) \<Longrightarrow> skipped_loop e weeks acc w = (tot, w') \<Longrightarrow>
   recorded Media w0 w' (sum_latest tot)"
proof (induction weeks arbitrary: acc w)
  case Nil
  then show ?case by simp
next
  case (Cons week weeks)
  obtain res1 w1 where run: "fetchMediaDailyInRange e (fst week) (fst (snd week)) w = (res1, w1)"
    by (cases "fetchMediaDailyInRange e (fst week) (fst (snd week)) w")
  note daily = daily_recorded [OF run]
  show ?case
  proof (cases res1)
    case (Inl err)
    from Cons.prems(1) daily have "recorded Media w0 w1 (sum_latest acc)"
      by (rule recorded_keep)
    moreover from Inl run Cons.prems(2) have "skipped_loop e weeks acc w1 = (tot, w')" by simp
    ultimately show ?thesis by (rule Cons.IH)
  next
    case (Inr dailyResults)
    with daily have "recorded Media w w1 (sum_latest dailyResults)" by simp
    with Cons.prems(1) have "recorded Media w0 w1 (sum_latest (add_totals acc dailyResults))"
      by (rule add_totals_recorded)
    moreover from run Inr Cons.prems(2)
    have "skipped_loop e weeks (add_totals acc dailyResults) w1 = (tot, w')" by simp
    ultimately show ?thesis by (rule Cons.IH)
  qed
qed

lemma date_chunks_recorded:
  assumes "fetchMediaInDateChunks e w = (res, w')"
  shows "recorded Media w w' (shown run_latest res)"
proof -
  obtain res1 w1 where walk: "chunks_loop e (mediaSyncStartDate e) (walk0 (clock e (tick w) 0)) w = (res1, w1)"
    by (cases "chunks_loop e (mediaSyncStartDate e) (walk0 (clock e (tick w) 0)) w")
  have "recorded Media w w (sum_latest (sums (walk0 (clock e (tick w) 0))))"
    by (simp add: walk0_def totals0_def recorded_start)
  note loop = chunks_loop_recorded [OF this walk]
  show ?thesis
  proof (cases res1)
    case (Inl err)
    with walk assms loop show ?thesis by (auto simp: fetchMediaInDateChunks_def)
  next
    case (Inr st)
    with loop have inv: "recorded Media w w1 (sum_latest (sums st))" by simp
    obtain tot w2 where skipped: "skipped_loop e (skippedWeeks st) (sums st) w1 = (tot, w2)"
      by (cases "skipped_loop e (skippedWeeks st) (sums st) w1")
    from skipped_loop_recorded [OF inv skipped] walk Inr skipped assms show ?thesis
      by (auto simp: fetchMediaInDateChunks_def)
  qed
qed

lemma range_loop_recorded:
  "recorded Media w0 w (sum_latest acc) \<Longrightarrow>
   range_loop e fromDate currentStart currentEnd n acc w = (res, w') \<Longrightarrow>
   recorded Media w0 w' (shown sum_latest res)"
proof (induction e fromDate currentStart currentEnd n acc w rule: range_loop.induct)
  case (1 e fromDate currentStart currentEnd n acc w)
  show ?case
  proof (cases "currentEnd > fromDate \<and> n < 100")
    case False
    with "1.prems" show ?thesis by (auto simp: range_loop.simps)
  next
    case go: True
    define cs where "cs = (if currentStart < fromDate then fromDate else currentStart)"
    obtain res1 w1 where run: "fetchAndUpsertMediaBatchesInternal e
        (Some (Range cs currentEnd)) False w = (res1, w1)"
      by (cases "fetchAndUpsertMediaBatchesInternal e (Some (Range cs currentEnd)) False w")
    note slice = slice_recorded(1) [OF run]
    show ?thesis
    proof (cases res1)
      case (Inl err)
      with go run "1.prems"(2) have "res = Inl err" "w' = w1"
        by (auto simp: range_loop.simps [of e fromDate currentStart] cs_def Let_def)
      with "1.prems"(1) slice show ?thesis
        by (auto dest: recorded_drop)
    next
      case (Inr result)
      show ?thesis
      proof (cases "hitLimit result")
        case hit: True
        from "1.prems"(1) slice have inv1: "recorded Media w0 w1 (sum_latest acc)"
          by (rule recorded_keep)
        obtain dres w2 where daily: "fetchMediaDailyInRange e cs currentEnd w1 = (dres, w2)"
          by (cases "fetchMediaDailyInRange e cs currentEnd w1")
        note dly = daily_recorded [OF daily]
        show ?thesis
        proof (cases dres)
          case (Inl err)
          with go run \<open>res1 = Inr result\<close> hit daily "1.prems"(2)
          have "res = Inl err" "w' = w2"
            by (auto simp: range_loop.simps [of e fromDate currentStart] cs_def Let_def)
          with inv1 dly show ?thesis
            by (auto dest: recorded_drop)
        next
          case dr: (Inr dailyResults)
          with dly have "recorded Media w1 w2 (sum_latest dailyResults)" by simp
          with inv1 have inv: "recorded Media w0 w2 (sum_latest (add_totals acc dailyResults))"
            by (rule add_totals_recorded)
          from go run \<open>res1 = Inr result\<close> hit daily dr "1.prems"(2)
          have rest: "range_loop e fromDate (cs - daysPerChunk * day) cs (n + 1)
                  (add_totals acc dailyResults) w2 = (res, w')"
            by (auto simp: range_loop.simps [of e fromDate currentStart] cs_def Let_def)
          from "1.IH"(1) [OF go cs_def run [symmetric] \<open>res1 = Inr result\<close> hit daily [symmetric] dr
              inv rest]
          show ?thesis .
        qed
      next
        case nohit: False
        from slice Inr have "recorded Media w w1 (latestTimestamp result)" by simp
        with "1.prems"(1) have inv: "recorded Media w0 w1 (sum_latest (add_slice acc result))"
          by (rule add_slice_recorded)
        from go run Inr nohit "1.prems"(2)
        have rest: "range_loop e fromDate (cs - daysPerChunk * day) cs (n + 1)
                (add_slice acc result) w1 = (res, w')"
          by (auto simp: range_loop.simps [of e fromDate currentStart] cs_def Let_def)
        from "1.IH"(2) [OF go cs_def run [symmetric] Inr nohit inv rest]
        show ?thesis .
      qed
    qed
  qed
qed

lemma date_range_recorded:
  "fetchMediaInDateRange e a b w = (res, w') \<Longrightarrow> recorded Media w w' (shown sum_latest res)"
  unfolding fetchMediaInDateRange_def
proof (rule range_loop_recorded)
  show "recorded Media w w (sum_latest totals0)"
    by (simp add: totals0_def recorded_start)
qed

lemma recorded_from:
  "recorded k w1 w' x \<Longrightarrow> writes w1 = writes w \<Longrightarrow> handle w1 = handle w \<Longrightarrow> recorded k w w' x"
  by (simp add: recorded_def)

lemma run_return_recorded:
  "recorded k w0 w (sum_latest acc) \<Longrightarrow> run_return acc w = (res, w') \<Longrightarrow>
   recorded k w0 w' (shown run_latest res)"
  by (auto simp: run_return_def)

lemma media_pagination_recorded:
  assumes run: "fetchMediaWithSmartPagination e baseFilter incremental w = (res, w')"
  shows "recorded Media w w' (shown run_latest res)"
proof (cases incremental)
  case False
  with run have "fetchMediaInDateChunks e (w\<lparr>seen := []\<rparr>) = (res, w')"
    by (simp add: fetchMediaWithSmartPagination_def)
  then have "recorded Media (w\<lparr>seen := []\<rparr>) w' (shown run_latest res)"
    by (rule date_chunks_recorded)
  then show ?thesis by (rule recorded_from) simp_all
next
  case True
  obtain res1 w1 where first:
    "fetchAndUpsertMediaBatchesInternal e baseFilter False (w\<lparr>seen := []\<rparr>) = (res1, w1)"
    by (cases "fetchAndUpsertMediaBatchesInternal e baseFilter False (w\<lparr>seen := []\<rparr>)")
  from slice_recorded(1) [OF first]
  have slice: "recorded Media w w1 (shown latestTimestamp res1)"
    by (rule recorded_from) simp_all
  show ?thesis
  proof (cases res1)
    case (Inl err)
    with True first run slice show ?thesis
      by (auto simp: fetchMediaWithSmartPagination_def)
  next
    case (Inr r)
    define acc where "acc = add_slice totals0 r"
    from slice Inr have "recorded Media w w1 (latestTimestamp r)" by simp
    with recorded_start [of Media w] have acc: "recorded Media w w1 (sum_latest acc)"
      unfolding acc_def by (intro add_slice_recorded) (simp_all add: totals0_def)
    then have none: "recorded Media w w1 None"
      by (rule recorded_drop [OF _ recorded_start])
    have rest: "recorded Media w w2 (shown run_latest (fst (case dres of
                    Inl err \<Rightarrow> (Inl err, w2)
                  | Inr remainingResult \<Rightarrow> run_return (add_totals acc remainingResult) w2)))
                \<and> snd (case dres of
                    Inl err \<Rightarrow> (Inl err, w2)
                  | Inr remainingResult \<Rightarrow> run_return (add_totals acc remainingResult) w2) = w2"
      if "fetchMediaInDateRange e a b w1 = (dres, w2)" for a b dres w2
    proof (cases dres)
      case (Inl err)
      with acc date_range_recorded [OF that] show ?thesis
        by (auto dest: recorded_drop)
    next
      case (Inr remaining)
      with date_range_recorded [OF that] have "recorded Media w1 w2 (sum_latest remaining)"
        by simp
      with acc have "recorded Media w w2 (sum_latest (add_totals acc remaining))"
        by (rule add_totals_recorded)
      with Inr show ?thesis by (simp add: run_return_def)
    qed
    show ?thesis
    proof (cases "hitLimit r")
      case False
      with True first Inr run have "run_return acc w1 = (res, w')"
        by (simp add: fetchMediaWithSmartPagination_def Let_def acc_def)
      with acc show ?thesis by (rule run_return_recorded)
    next
      case hit: True
      show ?thesis
      proof (cases "getSyncLog ''MEDIA'' (handle w1)")
        case (Inl err)
        with True first \<open>res1 = Inr r\<close> hit run have "res = Inl err" "w' = w1"
          by (auto simp: fetchMediaWithSmartPagination_def Let_def)
        with none show ?thesis by simp
      next
        case got: (Inr lastSync)
        define oldestFetched where "oldestFetched = stamp_or (oldestTimestamp r) (clock e (tick w1) 0)"
        define startFrom where "startFrom = date_or lastSync date_2010_01_01"
        show ?thesis
        proof (cases "oldestFetched > startFrom")
          case False
          with True first \<open>res1 = Inr r\<close> hit got run have "run_return acc w1 = (res, w')"
            by (simp add: fetchMediaWithSmartPagination_def Let_def acc_def oldestFetched_def
                  startFrom_def)
          with acc show ?thesis by (rule run_return_recorded)
        next
          case far: True
          obtain dres w2 where range: "fetchMediaInDateRange e startFrom oldestFetched w1 = (dres, w2)"
            by (cases "fetchMediaInDateRange e startFrom oldestFetched w1")
          from True first \<open>res1 = Inr r\<close> hit got far range run
          have "(res, w') = (case dres of
                    Inl err \<Rightarrow> (Inl err, w2)
                  | Inr remainingResult \<Rightarrow> run_return (add_totals acc remainingResult) w2)"
            unfolding acc_def oldestFetched_def startFrom_def
            by (simp add: fetchMediaWithSmartPagination_def Let_def)
          with rest [OF range] show ?thesis
            by (metis fst_conv snd_conv)
        qed
      qed
    qed
  qed
qed

lemma media_records_recorded:
  "fetchMediaRecords e incremental w = (res, w') \<Longrightarrow> recorded Media w w' (shown run_latest res)"
  by (auto simp: fetchMediaRecords_def recorded_start
      split: if_splits sum.splits option.splits dest: media_pagination_recorded)

lemma older_loop_recorded:
  "recorded Listings w0 w (sum_latest acc) \<Longrightarrow>
   older_loop e expected days start end' n acc w = (res, w') \<Longrightarrow>
   recorded Listings w0 w' (shown sum_latest res)"
proof (induction e expected days start end' n acc w rule: older_loop.induct)
  case (1 e expected days start end' n acc w)
  show ?case
  proof (cases "n < 50")
    case False
    with "1.prems" show ?thesis by (auto simp: older_loop.simps)
  next
    case less: True
    obtain res1 w1 where run: "fetchAndUpsertBatchesInternal e (Some (Range start end')) True w = (res1, w1)"
      by (cases "fetchAndUpsertBatchesInternal e (Some (Range start end')) True w")
    note slice = slice_recorded(2) [OF run]
    show ?thesis
    proof (cases res1)
      case (Inl err)
      with less run "1.prems"(2) have "res = Inl err" "w' = w1"
        by (auto simp: older_loop.simps)
      with "1.prems"(1) slice show ?thesis
        by (auto dest: recorded_drop)
    next
      case (Inr result)
      with slice have "recorded Listings w w1 (latestTimestamp result)" by simp
      with "1.prems"(1) have inv: "recorded Listings w0 w1 (sum_latest (add_slice acc result))"
        by (rule add_slice_recorded)
      show ?thesis
      proof (cases "totalFetched result = 0")
        case empty: True
        show ?thesis
        proof (cases "start - days * day < date_2000_01_01")
          case True
          with less run Inr empty "1.prems"(2)
          have "res = Inr (add_slice acc result)" "w' = w1"
            by (auto simp: older_loop.simps)
          with inv show ?thesis by simp
        next
          case False
          with less run Inr empty "1.prems"(2)
          have rest: "older_loop e expected days (start - days * day) start (n + 1)
                  (add_slice acc result) w1 = (res, w')"
            by (simp add: older_loop.simps)
          from "1.IH"(1) [OF less run [symmetric] Inr empty False inv rest]
          show ?thesis .
        qed
      next
        case some: False
        define days' where "days' = (if hitLimit result then max 1 (days div 2) else days)"
        show ?thesis
        proof (cases "5 * length (seen w1) \<ge> 6 * expected")
          case True
          with less run Inr some "1.prems"(2)
          have "res = Inr (add_slice acc result)" "w' = w1"
            by (auto simp: older_loop.simps Let_def)
          with inv show ?thesis by simp
        next
          case False
          with less run Inr some "1.prems"(2)
          have rest: "older_loop e expected days' (start - days' * day) start (n + 1)
                  (add_slice acc result) w1 = (res, w')"
            by (simp add: older_loop.simps [of e expected days start] Let_def days'_def)
          from "1.IH"(2) [OF less run [symmetric] Inr some days'_def False inv rest]
          show ?thesis .
        qed
      qed
    qed
  qed
qed

lemma older_chunks_recorded:
  "fetchOlderRecordsInChunks e b n w = (res, w') \<Longrightarrow>
   recorded Listings w w' (shown sum_latest res)"
  unfolding fetchOlderRecordsInChunks_def Let_def
proof (rule older_loop_recorded)
  show "recorded Listings w w (sum_latest totals0)"
    by (simp add: totals0_def recorded_start)
qed

lemma smart_pagination_recorded:
  assumes run: "fetchWithSmartPagination e baseFilter n w = (res, w')"
  shows "recorded Listings w w' (shown run_latest res)"
proof -
  obtain res1 w1 where first:
    "fetchAndUpsertBatchesInternal e baseFilter False (w\<lparr>seen := []\<rparr>) = (res1, w1)"
    by (cases "fetchAndUpsertBatchesInternal e baseFilter False (w\<lparr>seen := []\<rparr>)")
  from slice_recorded(2) [OF first]
  have slice: "recorded Listings w w1 (shown latestTimestamp res1)"
    by (rule recorded_from) simp_all
  show ?thesis
  proof (cases res1)
    case (Inl err)
    with first run slice show ?thesis
      by (auto simp: fetchWithSmartPagination_def)
  next
    case (Inr r)
    define acc where "acc = add_slice totals0 r"
    from slice Inr have "recorded Listings w w1 (latestTimestamp r)" by simp
    with recorded_start [of Listings w] have acc: "recorded Listings w w1 (sum_latest acc)"
      unfolding acc_def by (intro add_slice_recorded) (simp_all add: totals0_def)
    show ?thesis
    proof (cases "hitLimit r \<or> sum_fetched acc \<ge> 99000")
      case False
      with first Inr run have "run_return acc w1 = (res, w')"
        unfolding acc_def by (simp add: fetchWithSmartPagination_def Let_def)
      with acc show ?thesis by (rule run_return_recorded)
    next
      case more: True
      define oldestDate where "oldestDate = stamp_or (oldestTimestamp r) (clock e (tick w1) 0)"
      obtain ores w2 where older: "fetchOlderRecordsInChunks e oldestDate n w1 = (ores, w2)"
        by (cases "fetchOlderRecordsInChunks e oldestDate n w1")
      note chunks = older_chunks_recorded [OF older]
      show ?thesis
      proof (cases ores)
        case (Inl err)
        with first \<open>res1 = Inr r\<close> more older run have "res = Inl err" "w' = w2"
          unfolding acc_def oldestDate_def
          by (auto simp: fetchWithSmartPagination_def Let_def)
        with acc chunks show ?thesis
          by (auto dest: recorded_drop)
      next
        case got: (Inr olderResults)
        with chunks have "recorded Listings w1 w2 (sum_latest olderResults)" by simp
        with acc have all: "recorded Listings w w2 (sum_latest (add_totals acc olderResults))"
          by (rule add_totals_recorded)
        from first \<open>res1 = Inr r\<close> more older got run
        have "run_return (add_totals acc olderResults) w2 = (res, w')"
          unfolding acc_def oldestDate_def
          by (auto simp: fetchWithSmartPagination_def Let_def)
        with all show ?thesis by (rule run_return_recorded)
      qed
    qed
  qed
qed

lemma properties_recorded:
  "fetchProperties label n e incremental w = (res, w') \<Longrightarrow>
   recorded Listings w w' (shown run_latest res)"
  by (auto simp: fetchProperties_def recorded_start
      split: if_splits sum.splits option.splits dest: smart_pagination_recorded)

lemma after_run_writes:
  assumes "getSyncLog label (handle w) = Inr (Some c)" and "handle w' = handle w"
    and "run_latest result = Some t"
  shows "getSyncLog label (handle (snd (after_run label failFast e (Inr result, w')))) = Inr (Some t)"
  using assms
  by (auto simp: after_run_def getSyncLog_def updateSyncLog_def split: option.splits)

lemma recorded_row:
  assumes "recorded k w w' (Some t)"
  shows "handle w' = handle w" and "\<exists>m\<in>set (handed_over w w'). checkpoint_stamp k m = Some t"
  using assms by (auto simp: recorded_def handed_over_def)

text \<open>
  Claim C7, as the code has it. The coordinator writes the run's \<^verbatim>\<open>latestTimestamp\<close> without
  looking at the stored checkpoint. For a media run and for a listings run that return a latest
  timestamp \<open>t\<close> while the store holds the checkpoint \<open>c\<close>: the checkpoint stored after the run is
  \<open>t\<close>; \<open>t\<close> is the timestamp read off one of the rows the run handed to \<^verbatim>\<open>upsertBatch\<close>; and
  \<open>c \<le> t\<close> holds provided none of the rows the run handed to \<^verbatim>\<open>upsertBatch\<close> has its timestamp
  before \<open>c\<close>.
\<close>

theorem checkpoint_is_read_off_a_row_handed_over:
  "(fetchMediaRecords e incremental w = (Inr result, w')
      \<and> run_latest result = Some t
      \<and> getSyncLog ''MEDIA'' (handle w) = Inr (Some c)
    \<longrightarrow> getSyncLog ''MEDIA'' (handle (snd (processMedia incremental failFast e w)))
          = Inr (Some t)
        \<and> (\<exists>m\<in>set (handed_over w w'). checkpoint_stamp Media m = Some t)
        \<and> ((\<forall>m\<in>set (handed_over w w'). at_least c (checkpoint_stamp Media m)) \<longrightarrow> c \<le> t))
   \<and> (fetchProperties label n e incremental w = (Inr result, w')
      \<and> run_latest result = Some t
      \<and> getSyncLog label (handle w) = Inr (Some c)
    \<longrightarrow> getSyncLog label
            (handle (snd (processProperties label (fetchProperties label n) incremental failFast
                            e w)))
          = Inr (Some t)
        \<and> (\<exists>m\<in>set (handed_over w w'). checkpoint_stamp Listings m = Some t)
        \<and> ((\<forall>m\<in>set (handed_over w w'). at_least c (checkpoint_stamp Listings m)) \<longrightarrow> c \<le> t))"
proof (rule conjI; rule impI)
  assume a: "fetchMediaRecords e incremental w = (Inr result, w')
      \<and> run_latest result = Some t
      \<and> getSyncLog ''MEDIA'' (handle w) = Inr (Some c)"
  then have "fetchMediaRecords e incremental w = (Inr result, w')" by simp
  then have "recorded Media w w' (shown run_latest (Inr result))"
    by (rule media_records_recorded)
  with a have rec: "recorded Media w w' (Some t)" by simp
  note row = recorded_row [OF rec]
  from a have stored: "getSyncLog ''MEDIA'' (handle w) = Inr (Some c)"
    and latest: "run_latest result = Some t"
    by simp_all
  from a after_run_writes [OF stored row(1) latest, of failFast e]
  have "getSyncLog ''MEDIA'' (handle (snd (processMedia incremental failFast e w))) = Inr (Some t)"
    by (simp add: processMedia_def)
  moreover from row(2)
  have "(\<forall>m\<in>set (handed_over w w'). at_least c (checkpoint_stamp Media m)) \<longrightarrow> c \<le> t"
    by auto
  ultimately
  show "getSyncLog ''MEDIA'' (handle (snd (processMedia incremental failFast e w)))
          = Inr (Some t)
        \<and> (\<exists>m\<in>set (handed_over w w'). checkpoint_stamp Media m = Some t)
        \<and> ((\<forall>m\<in>set (handed_over w w'). at_least c (checkpoint_stamp Media m)) \<longrightarrow> c \<le> t)"
    using row(2) by simp
next
  assume a: "fetchProperties label n e incremental w = (Inr result, w')
      \<and> run_latest result = Some t
      \<and> getSyncLog label (handle w) = Inr (Some c)"
  then have "fetchProperties label n e incremental w = (Inr result, w')" by simp
  then have "recorded Listings w w' (shown run_latest (Inr result))"
    by (rule properties_recorded)
  with a have rec: "recorded Listings w w' (Some t)" by simp
  note row = recorded_row [OF rec]
  from a have stored: "getSyncLog label (handle w) = Inr (Some c)"
    and latest: "run_latest result = Some t"
    by simp_all
  from a after_run_writes [OF stored row(1) latest, of failFast e]
  have "getSyncLog label
            (handle (snd (processProperties label (fetchProperties label n) incremental failFast
                            e w)))
          = Inr (Some t)"
    by (simp add: processProperties_def)
  moreover from row(2)
  have "(\<forall>m\<in>set (handed_over w w'). at_least c (checkpoint_stamp Listings m)) \<longrightarrow> c \<le> t"
    by auto
  ultimately
  show "getSyncLog label
            (handle (snd (processProperties label (fetchProperties label n) incremental failFast
                            e w)))
          = Inr (Some t)
        \<and> (\<exists>m\<in>set (handed_over w w'). checkpoint_stamp Listings m = Some t)
        \<and> ((\<forall>m\<in>set (handed_over w w'). at_least c (checkpoint_stamp Listings m)) \<longrightarrow> c \<le> t)"
    using row(2) by simp
qed

text \<open>Evaluating a media run and the coordinator's step on a concrete upstream.\<close>

lemmas run_eval =
  processMedia_def after_run_def fetchMediaRecords_def fetchMediaWithSmartPagination_def
  run_return_def getSyncLog_def updateSyncLog_def media_log_def world_at_def handed_over_def
  checkpoint_stamp_def

text \<open>
  The theorem for C7 at an incremental media run from the checkpoint 2024-01-05 over the
  upstream that holds the records of 2024-01-02 and 2024-01-06: the run asks for what is newer
  than the checkpoint, hands over the row of the second record and writes 2024-01-06.
\<close>

theorem checkpoint_is_read_off_a_row_handed_over_witness:
  "fst (fetchMediaRecords archive_env True (world_at (jan 5)))
       = Inr \<lparr>run_fetched = 1, run_upserted = 1, run_unique = 1, run_latest = Some (jan 6)\<rparr>
   \<and> getSyncLog ''MEDIA'' (handle (world_at (jan 5))) = Inr (Some (jan 5))
   \<and> handed_over (world_at (jan 5)) (snd (fetchMediaRecords archive_env True (world_at (jan 5))))
       = [mapMedia (jan 10) photo]
   \<and> checkpoint_stamp Media (mapMedia (jan 10) photo) = Some (jan 6)
   \<and> getSyncLog ''MEDIA'' (handle (snd (processMedia True False archive_env (world_at (jan 5)))))
       = Inr (Some (jan 6))
   \<and> jan 5 \<le> jan 6"
proof -
  have stored: "getSyncLog ''MEDIA'' (handle (world_at (jan 5))) = Inr (Some (jan 5))"
    by (simp add: getSyncLog_def media_log_def world_at_def)
  obtain result w' where run:
    "fetchMediaRecords archive_env True (world_at (jan 5)) = (Inr result, w')"
    and result: "result = \<lparr>run_fetched = 1, run_upserted = 1, run_unique = 1,
                           run_latest = Some (jan 6)\<rparr>"
    and rows: "handed_over (world_at (jan 5)) w' = [mapMedia (jan 10) photo]"
    by (simp add: run_eval slice_eval add_slice_def totals0_def archive_env_def archive_server_def
          photo_def early_photo_def)
  from result have latest: "run_latest result = Some (jan 6)" by simp
  have stamp: "checkpoint_stamp Media (mapMedia (jan 10) photo) = Some (jan 6)"
    by (simp add: checkpoint_stamp_def mapMedia_def photo_def on_jan_6_def)
  from rows stamp
  have newer: "\<forall>m\<in>set (handed_over (world_at (jan 5)) w'). at_least (jan 5) (checkpoint_stamp Media m)"
    by (simp add: jan_def)
  from checkpoint_is_read_off_a_row_handed_over
    [of archive_env True "world_at (jan 5)" result w' "jan 6" "jan 5" False]
    run latest stored newer
  have "getSyncLog ''MEDIA'' (handle (snd (processMedia True False archive_env (world_at (jan 5)))))
       = Inr (Some (jan 6)) \<and> jan 5 \<le> jan 6"
    by blast
  with stored run result rows stamp show ?thesis by simp
qed

text \<open>
  Claim C7 fails as stated: a full media run started on 2024-01-10, with the checkpoint
  2024-01-09 stored, over an upstream whose newest record is of 2024-01-06, processes that
  record and writes 2024-01-06 over the later checkpoint.
\<close>

theorem full_run_moves_checkpoint_back:
  "getSyncLog ''MEDIA'' (handle (world_at (jan 9))) = Inr (Some (jan 9))
   \<and> fst (fetchMediaRecords archive_env False (world_at (jan 9)))
       = Inr \<lparr>run_fetched = 1, run_upserted = 1, run_unique = 1, run_latest = Some (jan 6)\<rparr>
   \<and> getSyncLog ''MEDIA'' (handle (snd (processMedia False False archive_env (world_at (jan 9)))))
       = Inr (Some (jan 6))
   \<and> jan 6 < jan 9"
  by (simp add: run_eval slice_eval walk_eval archive_env_def archive_server_def)


text \<open>
  The timestamp written need not be the newest one the run handed over. In this full run the
  week from 2024-01-04 and the day 2024-01-08 both saturate after one record: the daily
  drill-down drops the result of the saturated day, the hourly slices that follow find its
  record already seen, and the run returns 2024-01-06 although it handed over the row of
  2024-01-08.
\<close>

lemma saturated_day_latest_is_dropped:
  "(case fetchMediaRecords busy_env False world0 of
      (res, w') \<Rightarrow>
        res = Inr \<lparr>run_fetched = 2, run_upserted = 2, run_unique = 2, run_latest = Some (jan 6)\<rparr>
        \<and> handed_over world0 w' = [mapMedia (jan 10) photo, mapMedia (jan 10) late_photo])
   \<and> checkpoint_stamp Media (mapMedia (jan 10) late_photo) = Some (jan 8)"
  by (simp add: run_eval slice_eval walk_eval busy_env_def busy_server_def late_photo_def
        on_jan_8_def upt_rec)

end
